theory Spec2Isabelle
  imports Main "HOL-Library.Word"
begin

section \<open>The ledger: contract Whirlwind\<close>

text \<open>
  The repository holds two versions of the contract. The one documented in the README of
  hw5 and called by scripts/separate-and-test.js is the file src/unnamed/part_001; its
  functions are \<open>deposit\<close> and \<open>withdraw\<close> below. The file
  src/hw5/contracts/whirlwind.sol differs in the public inputs it hands to the verifiers
  and in the signature of withdraw; its functions are \<open>deposit_hw5\<close> and
  \<open>withdraw_hw5\<close>.

  Storage is a record; a call returns the new storage, or the reason of the revert.
  A reverted call leaves the storage as it was (\<open>after\<close>). The two verifier contracts
  and the recipient of a payout are external code: they are the fields of \<open>world\<close>.
  A value of type \<open>bytes32\<close> or \<open>uint256\<close> is a 256-bit word. The packed encoding
  \<open>abi.encodePacked\<close> of values of 32 bytes each is the list of these values.
\<close>

type_synonym bytes32 = "256 word"
type_synonym uint256 = "256 word"
type_synonym address = "160 word"
type_synonym bytes = "8 word list"

datatype event =
    Deposit bytes32 bytes32 uint256
  | Withdraw address bytes32

datatype revert =
    DepositLimitReached
  | MustDepositExactly
  | InvalidDepositProof
  | NullifierAlreadyUsed
  | InvalidWithdrawProof
  | TransferFailed
  | Panic

record Whirlwind =
  depositVerifier :: address
  withdrawVerifier :: address
  depositIndex :: uint256
  maxDeposits :: uint256
  usedNullifiers :: "bytes32 \<Rightarrow> bool"
  currentRoot :: bytes32
  owner :: address
  balance :: nat
  events :: "event list"

text \<open>
  \<open>verify a proof publicInputs\<close> is the answer of \<open>IVerifier(a).verify(proof, publicInputs)\<close>.
  \<open>accepts a s\<close> says whether the account \<open>a\<close> accepts an incoming transfer when the
  ledger's storage is \<open>s\<close> at the time of the call (the recipient's code runs in the middle
  of withdraw and sees the storage as it is then).
\<close>

record world =
  verify :: "address \<Rightarrow> bytes \<Rightarrow> bytes32 list \<Rightarrow> bool"
  accepts :: "address \<Rightarrow> Whirlwind \<Rightarrow> bool"

record msg =
  msg_sender :: address
  msg_value :: uint256

text \<open>0.1 ether, in wei.\<close>

definition ether_0_1 :: uint256 where
  "ether_0_1 = 100000000000000000"

text \<open>
  The constructor. Arithmetic is checked (pragma ^0.8.0): \<open>2 ** _merkleTreeDepth\<close>
  reverts with a panic when it does not fit in 256 bits.
\<close>

definition constructor ::
    "address \<Rightarrow> address \<Rightarrow> address \<Rightarrow> uint256 \<Rightarrow> bytes32 \<Rightarrow> revert + Whirlwind" where
  "constructor sender depositVerifier' withdrawVerifier' merkleTreeDepth initialRoot =
     (if 256 \<le> unat merkleTreeDepth then Inl Panic
      else Inr \<lparr>depositVerifier = depositVerifier',
                withdrawVerifier = withdrawVerifier',
                depositIndex = 0,
                maxDeposits = 2 ^ unat merkleTreeDepth,
                usedNullifiers = (\<lambda>_. False),
                currentRoot = initialRoot,
                owner = sender,
                balance = 0,
                events = []\<rparr>)"

text \<open>
  \<open>payable(to).transfer(amount)\<close>: reverts when the contract holds less than the amount or
  when the recipient does not accept; the amount has left the contract when the
  recipient's code runs.
\<close>

definition transfer :: "world \<Rightarrow> Whirlwind \<Rightarrow> address \<Rightarrow> uint256 \<Rightarrow> revert + Whirlwind" where
  "transfer w s to amount =
     (if balance s < unat amount then Inl TransferFailed
      else let s' = s\<lparr>balance := balance s - unat amount\<rparr>
           in if accepts w to s' then Inr s' else Inl TransferFailed)"

subsection \<open>src/unnamed/part_001\<close>

text \<open>
  deposit is payable: the value of the message is credited on entry. The increment
  \<open>depositIndex++\<close> is checked.
\<close>

definition deposit ::
    "world \<Rightarrow> Whirlwind \<Rightarrow> msg \<Rightarrow> bytes \<Rightarrow> bytes32 \<Rightarrow> bytes32 \<Rightarrow> revert + Whirlwind" where
  "deposit w s m prf newRoot commitment =
     (let s0 = s\<lparr>balance := balance s + unat (msg_value m)\<rparr> in
      if \<not> depositIndex s0 < maxDeposits s0 then Inl DepositLimitReached
      else
        let publicInputs = [currentRoot s0, newRoot, commitment, depositIndex s0] in
        if msg_value m \<noteq> ether_0_1 then Inl MustDepositExactly
        else if \<not> verify w (depositVerifier s0) prf publicInputs then Inl InvalidDepositProof
        else
          let s1 = s0\<lparr>currentRoot := newRoot\<rparr>;
              s2 = s1\<lparr>events := events s1 @ [Deposit newRoot commitment (depositIndex s1)]\<rparr>
          in if depositIndex s2 = - 1 then Inl Panic
             else Inr (s2\<lparr>depositIndex := depositIndex s2 + 1\<rparr>))"

text \<open>withdraw is not payable: the call carries no ether, only its sender matters.\<close>

definition withdraw ::
    "world \<Rightarrow> Whirlwind \<Rightarrow> address \<Rightarrow> bytes \<Rightarrow> bytes32 \<Rightarrow> revert + Whirlwind" where
  "withdraw w s sender prf nullifier =
     (if usedNullifiers s nullifier then Inl NullifierAlreadyUsed
      else
        let publicInputs = [currentRoot s, nullifier] in
        if \<not> verify w (withdrawVerifier s) prf publicInputs then Inl InvalidWithdrawProof
        else
          let s1 = s\<lparr>usedNullifiers := (usedNullifiers s)(nullifier := True)\<rparr>;
              s2 = s1\<lparr>events := events s1 @ [Withdraw sender nullifier]\<rparr>
          in transfer w s2 sender ether_0_1)"

subsection \<open>src/hw5/contracts/whirlwind.sol\<close>

definition deposit_hw5 ::
    "world \<Rightarrow> Whirlwind \<Rightarrow> msg \<Rightarrow> bytes \<Rightarrow> bytes32 \<Rightarrow> bytes32 \<Rightarrow> revert + Whirlwind" where
  "deposit_hw5 w s m prf newRoot commitment =
     (let s0 = s\<lparr>balance := balance s + unat (msg_value m)\<rparr> in
      if \<not> depositIndex s0 < maxDeposits s0 then Inl DepositLimitReached
      else
        let publicInputs = [commitment, depositIndex s0, newRoot] in
        if msg_value m \<noteq> ether_0_1 then Inl MustDepositExactly
        else if \<not> verify w (depositVerifier s0) prf publicInputs then Inl InvalidDepositProof
        else
          let s1 = s0\<lparr>currentRoot := newRoot\<rparr>;
              s2 = s1\<lparr>events := events s1 @ [Deposit newRoot commitment (depositIndex s1)]\<rparr>
          in if depositIndex s2 = - 1 then Inl Panic
             else Inr (s2\<lparr>depositIndex := depositIndex s2 + 1\<rparr>))"

definition withdraw_hw5 ::
    "world \<Rightarrow> Whirlwind \<Rightarrow> address \<Rightarrow> bytes \<Rightarrow> bytes32 \<Rightarrow> bytes32 \<Rightarrow> revert + Whirlwind" where
  "withdraw_hw5 w s sender prf root nullifier =
     (if usedNullifiers s nullifier then Inl NullifierAlreadyUsed
      else
        let publicInputs = [root, nullifier] in
        if \<not> verify w (withdrawVerifier s) prf publicInputs then Inl InvalidWithdrawProof
        else
          let s1 = s\<lparr>usedNullifiers := (usedNullifiers s)(nullifier := True)\<rparr>;
              s2 = s1\<lparr>events := events s1 @ [Withdraw sender nullifier]\<rparr>
          in transfer w s2 sender ether_0_1)"

subsection \<open>Sequences of calls\<close>

text \<open>The storage after a call: a revert rolls every effect back.\<close>

definition after :: "Whirlwind \<Rightarrow> revert + Whirlwind \<Rightarrow> Whirlwind" where
  "after s r = (case r of Inl _ \<Rightarrow> s | Inr s' \<Rightarrow> s')"

text \<open>A call of one of the two public operations, with the world it runs in.\<close>

datatype call =
    CallDeposit world msg bytes bytes32 bytes32
  | CallWithdraw world address bytes bytes32

fun step :: "Whirlwind \<Rightarrow> call \<Rightarrow> Whirlwind" where
  "step s (CallDeposit w m prf newRoot commitment) = after s (deposit w s m prf newRoot commitment)"
| "step s (CallWithdraw w sender prf nullifier) = after s (withdraw w s sender prf nullifier)"

definition run :: "Whirlwind \<Rightarrow> call list \<Rightarrow> Whirlwind" where
  "run s cs = foldl step s cs"

section \<open>The accumulator: class MerkleTree\<close>

text \<open>
  A field element \<open>Fr\<close> is a natural number (below the modulus of the field). The
  Pedersen hash of Barretenberg is external: it is a function \<open>Fr \<Rightarrow> Fr \<Rightarrow> Fr\<close>,
  the value of \<open>bb.pedersenHash([left, right], 0)\<close>. An index or a level is a natural
  number (a JavaScript number that is a non-negative integer below \<open>2^53\<close>).

  The key \<open>`${level}-${index}`\<close> of the storage is the pair \<open>(level, index)\<close>. A read
  that yields \<open>undefined\<close> in JavaScript (a missing key, an array read past the end, the
  field \<open>bb\<close> before \<open>initialize\<close>) yields \<open>None\<close>. A field element is an object and
  never falsy, so \<open>x || y\<close> and \<open>!x\<close> only test whether \<open>x\<close> is undefined. A method
  that throws returns \<open>Inl\<close>; update and insert throw before they change the tree.
  The method getIndex, which no other code of the repository calls, is left out.
\<close>

type_synonym Fr = nat

definition zeroValue :: Fr where
  "zeroValue = 0x18d85f3de6dcd78b6ffbf5d8374433a5528d8e3bf2100df0b7bb43a4c59ebd63"

datatype error =
    UseInsertMethod
  | UseUpdateMethod
  | TypeError
  | NoDepositRecord nat
  | InvalidCircuitType

record MerkleTree =
  levels :: nat
  storage :: "nat \<times> nat \<Rightarrow> Fr option"
  zeros :: "Fr list"
  totalLeaves :: nat
  bb :: "(Fr \<Rightarrow> Fr \<Rightarrow> Fr) option"

definition new_MerkleTree :: "nat \<Rightarrow> MerkleTree" where
  "new_MerkleTree levels' =
     \<lparr>levels = levels', storage = (\<lambda>_. None), zeros = [], totalLeaves = 0, bb = None\<rparr>"

text \<open>
  \<open>this.bb.pedersenHash([left, right], 0)\<close>: a TypeError when \<open>bb\<close> is not set or an
  operand is undefined.
\<close>

definition pedersenHash :: "MerkleTree \<Rightarrow> Fr option \<Rightarrow> Fr option \<Rightarrow> error + Fr" where
  "pedersenHash t left right =
     (case bb t of
        None \<Rightarrow> Inl TypeError
      | Some h \<Rightarrow>
          (case left of
             None \<Rightarrow> Inl TypeError
           | Some l \<Rightarrow> (case right of None \<Rightarrow> Inl TypeError | Some r \<Rightarrow> Inr (h l r))))"

definition indexToKey :: "nat \<Rightarrow> nat \<Rightarrow> nat \<times> nat" where
  "indexToKey level index = (level, index)"

text \<open>\<open>this.zeros[level]\<close>\<close>

definition zeros_at :: "MerkleTree \<Rightarrow> nat \<Rightarrow> Fr option" where
  "zeros_at t level = (if level < length (zeros t) then Some (zeros t ! level) else None)"

text \<open>\<open>this.storage.get(MerkleTree.indexToKey(level, index)) || this.zeros[level]\<close>\<close>

definition node :: "MerkleTree \<Rightarrow> nat \<Rightarrow> nat \<Rightarrow> Fr option" where
  "node t level index =
     (case storage t (indexToKey level index) of Some v \<Rightarrow> Some v | None \<Rightarrow> zeros_at t level)"

definition root :: "MerkleTree \<Rightarrow> Fr option" where
  "root t = node t (levels t) 0"

text \<open>
  A call of the method root(): its body is one \<open>return\<close> of the expression above, with no
  assignment and no \<open>throw\<close>. The call gives the tree after it and the value returned.
\<close>

definition root_call :: "MerkleTree \<Rightarrow> error + MerkleTree \<times> Fr option" where
  "root_call t = Inr (t, root t)"

text \<open>
  traverse: the loop \<open>for (let i = 0; i < this.levels; i++)\<close>; the first argument of
  \<open>traverse_loop\<close> counts the iterations left. The handler is a closure that updates
  local variables of its caller: here it maps their old values to the new ones, or throws.
\<close>

fun traverse_loop ::
    "nat \<Rightarrow> nat \<Rightarrow> nat \<Rightarrow> (nat \<Rightarrow> nat \<Rightarrow> nat \<Rightarrow> 's \<Rightarrow> error + 's) \<Rightarrow> 's \<Rightarrow> error + 's" where
  "traverse_loop 0 i currentIndex handler s = Inr s"
| "traverse_loop (Suc n) i currentIndex handler s =
     (let siblingIndex = (if currentIndex mod 2 = 0 then currentIndex + 1 else currentIndex - 1)
      in case handler i currentIndex siblingIndex s of
           Inl e \<Rightarrow> Inl e
         | Inr s' \<Rightarrow> traverse_loop n (i + 1) (currentIndex div 2) handler s')"

definition traverse ::
    "MerkleTree \<Rightarrow> nat \<Rightarrow> (nat \<Rightarrow> nat \<Rightarrow> nat \<Rightarrow> 's \<Rightarrow> error + 's) \<Rightarrow> 's \<Rightarrow> error + 's" where
  "traverse t indexOfLeaf handler s = traverse_loop (levels t) 0 indexOfLeaf handler s"

record MerkleProof =
  proof_root :: "Fr option"
  pathElements :: "Fr option list"
  pathIndices :: "nat list"
  proof_leaf :: "Fr option"

definition proof_handleIndex ::
    "MerkleTree \<Rightarrow> nat \<Rightarrow> nat \<Rightarrow> nat \<Rightarrow> Fr option list \<times> nat list
      \<Rightarrow> error + Fr option list \<times> nat list" where
  "proof_handleIndex t level currentIndex siblingIndex acc =
     (case acc of (elems, idxs) \<Rightarrow>
        let siblingValue = node t level siblingIndex
        in Inr (elems @ [siblingValue], idxs @ [currentIndex mod 2]))"

definition proof_mt :: "MerkleTree \<Rightarrow> nat \<Rightarrow> error + MerkleProof" where
  "proof_mt t indexOfLeaf =
     (let leaf = node t 0 indexOfLeaf
      in case traverse t indexOfLeaf (proof_handleIndex t) ([], []) of
           Inl e \<Rightarrow> Inl e
         | Inr (elems, idxs) \<Rightarrow>
             Inr \<lparr>proof_root = root t, pathElements = elems, pathIndices = idxs,
                  proof_leaf = leaf\<rparr>)"

definition update_handleIndex ::
    "MerkleTree \<Rightarrow> nat \<Rightarrow> nat \<Rightarrow> nat \<Rightarrow> ((nat \<times> nat) \<times> Fr) list \<times> Fr
      \<Rightarrow> error + ((nat \<times> nat) \<times> Fr) list \<times> Fr" where
  "update_handleIndex t level currentIndex siblingIndex acc =
     (case acc of (keyValueToStore, currentElement) \<Rightarrow>
        let siblingElement = node t level siblingIndex;
            left = (if currentIndex mod 2 = 0 then Some currentElement else siblingElement);
            right = (if currentIndex mod 2 = 0 then siblingElement else Some currentElement);
            keyValueToStore' = keyValueToStore @ [(indexToKey level currentIndex, currentElement)]
        in case pedersenHash t left right of
             Inl e \<Rightarrow> Inl e
           | Inr parent \<Rightarrow> Inr (keyValueToStore', parent))"

text \<open>\<open>keyValueToStore.forEach(o => this.storage.set(o.key, o.value))\<close>\<close>

fun commit :: "(nat \<times> nat \<Rightarrow> Fr option) \<Rightarrow> ((nat \<times> nat) \<times> Fr) list \<Rightarrow> (nat \<times> nat \<Rightarrow> Fr option)" where
  "commit m [] = m"
| "commit m ((k, v) # kvs) = commit (m(k \<mapsto> v)) kvs"

definition update :: "MerkleTree \<Rightarrow> nat \<Rightarrow> Fr \<Rightarrow> bool \<Rightarrow> error + MerkleTree" where
  "update t index newLeaf isInsert =
     (if \<not> isInsert \<and> index \<ge> totalLeaves t then Inl UseInsertMethod
      else if isInsert \<and> index < totalLeaves t then Inl UseUpdateMethod
      else
        case traverse t index (update_handleIndex t) ([], newLeaf) of
          Inl e \<Rightarrow> Inl e
        | Inr (keyValueToStore, currentElement) \<Rightarrow>
            Inr (t\<lparr>storage :=
                   commit (storage t)
                     (keyValueToStore @ [(indexToKey (levels t) 0, currentElement)])\<rparr>))"

definition insert_mt :: "MerkleTree \<Rightarrow> Fr \<Rightarrow> error + MerkleTree" where
  "insert_mt t leaf =
     (let index = totalLeaves t
      in case update t index leaf True of
           Inl e \<Rightarrow> Inl e
         | Inr t' \<Rightarrow> Inr (t'\<lparr>totalLeaves := totalLeaves t' + 1\<rparr>))"

text \<open>
  initialize: \<open>singleton\<close> is the hash of \<open>BarretenbergSync.getSingleton()\<close>. The first
  loop builds the zero of every level, the second inserts the default leaves. The hasher
  is set first; after that the first loop does not throw (lemma \<open>initialize_unfold\<close>).
\<close>

fun zeros_loop :: "MerkleTree \<Rightarrow> nat \<Rightarrow> Fr \<Rightarrow> error + MerkleTree" where
  "zeros_loop t 0 currentZero = Inr t"
| "zeros_loop t (Suc n) currentZero =
     (case pedersenHash t (Some currentZero) (Some currentZero) of
        Inl e \<Rightarrow> Inl e
      | Inr z \<Rightarrow> zeros_loop (t\<lparr>zeros := zeros t @ [z]\<rparr>) n z)"

fun insert_all :: "MerkleTree \<Rightarrow> Fr list \<Rightarrow> error + MerkleTree" where
  "insert_all t [] = Inr t"
| "insert_all t (leaf # rest) =
     (case insert_mt t leaf of Inl e \<Rightarrow> Inl e | Inr t' \<Rightarrow> insert_all t' rest)"

definition initialize :: "(Fr \<Rightarrow> Fr \<Rightarrow> Fr) \<Rightarrow> MerkleTree \<Rightarrow> Fr list \<Rightarrow> error + MerkleTree" where
  "initialize singleton t defaultLeaves =
     (let t1 = t\<lparr>bb := Some singleton\<rparr>;
          currentZero = zeroValue;
          t2 = t1\<lparr>zeros := zeros t1 @ [currentZero]\<rparr>
      in case zeros_loop t2 (levels t2) currentZero of
           Inl e \<Rightarrow> Inl e
         | Inr t3 \<Rightarrow> insert_all t3 defaultLeaves)"

section \<open>The circuits: deposit.nr and withdraw.nr\<close>

text \<open>
  \<open>index.to_le_bits::<n>()\<close>: the \<open>n\<close> bits of the index, least significant first;
  the constraint fails (\<open>None\<close>) when the index does not fit in \<open>n\<close> bits.
\<close>

definition to_le_bits :: "nat \<Rightarrow> Fr \<Rightarrow> nat list option" where
  "to_le_bits n x =
     (if x < 2 ^ n then Some (map (\<lambda>i. (x div 2 ^ i) mod 2) [0..<n]) else None)"

text \<open>
  The loop \<open>for i in 0..n\<close> of both circuits: the current value is the right operand
  of the hash when bit \<open>i\<close> is 1, the left one otherwise.
\<close>

definition merkle_walk :: "(Fr \<Rightarrow> Fr \<Rightarrow> Fr) \<Rightarrow> nat \<Rightarrow> nat list \<Rightarrow> Fr list \<Rightarrow> Fr \<Rightarrow> Fr" where
  "merkle_walk H n bits path start =
     foldl (\<lambda>cur i. if bits ! i = 1 then H (path ! i) cur else H cur (path ! i)) start [0..<n]"

text \<open>
  Steps 2 and 3 of the circuits, for a path of \<open>n\<close> elements (the circuits fix
  \<open>n = 8\<close>; the type \<open>[Field; 8]\<close> admits no other length).
\<close>

definition circuit_root :: "(Fr \<Rightarrow> Fr \<Rightarrow> Fr) \<Rightarrow> nat \<Rightarrow> Fr \<Rightarrow> Fr list \<Rightarrow> Fr \<Rightarrow> Fr option" where
  "circuit_root H n index path start =
     (if length path \<noteq> n then None
      else case to_le_bits n index of
             None \<Rightarrow> None
           | Some bits \<Rightarrow> Some (merkle_walk H n bits path start))"

text \<open>The two \<open>main\<close> functions: whether every assertion holds.\<close>

definition deposit_main ::
    "(Fr \<Rightarrow> Fr \<Rightarrow> Fr) \<Rightarrow> Fr \<Rightarrow> Fr \<Rightarrow> Fr list \<Rightarrow> Fr \<Rightarrow> Fr \<Rightarrow> Fr \<Rightarrow> Fr \<Rightarrow> bool" where
  "deposit_main H id' r oldPath oldRoot newRoot commitment index =
     (H id' r = commitment
      \<and> circuit_root H 8 index oldPath zeroValue = Some oldRoot
      \<and> circuit_root H 8 index oldPath commitment = Some newRoot)"

definition withdraw_main ::
    "(Fr \<Rightarrow> Fr \<Rightarrow> Fr) \<Rightarrow> Fr \<Rightarrow> Fr \<Rightarrow> Fr list \<Rightarrow> Fr \<Rightarrow> Fr \<Rightarrow> bool" where
  "withdraw_main H r index path root' id' =
     (let commitment = H id' r
      in circuit_root H 8 index path commitment = Some root')"

section \<open>The generator: class NoirCircuitTomlGenerator\<close>

text \<open>
  A method of the generator returns the generator after the call and either the
  exception or the result. A TOML text is the list of its lines, each a key with a
  field element or a list of field elements (\<open>Fr.toString\<close> is external).
  \<open>numToFr\<close> writes the number in hexadecimal and reads it back as a field element.
\<close>

record DepositRecord =
  rec_id :: Fr
  rec_r :: Fr
  rec_commitment :: Fr
  rec_index :: Fr
  rec_oldRoot :: "Fr option"
  rec_newRoot :: "Fr option"
  rec_hashPath :: "Fr option list"
  rec_pathIndices :: "nat list"

record NoirCircuitTomlGenerator =
  tree :: MerkleTree
  deposits :: "DepositRecord list"

datatype toml_value = Str Fr | Arr "Fr list"

type_synonym toml = "(string \<times> toml_value) list"

definition new_NoirCircuitTomlGenerator :: NoirCircuitTomlGenerator where
  "new_NoirCircuitTomlGenerator = \<lparr>tree = new_MerkleTree 8, deposits = []\<rparr>"

definition init ::
    "(Fr \<Rightarrow> Fr \<Rightarrow> Fr) \<Rightarrow> NoirCircuitTomlGenerator \<Rightarrow> NoirCircuitTomlGenerator \<times> (error + unit)" where
  "init singleton g =
     (case initialize singleton (tree g) [] of
        Inl e \<Rightarrow> (g, Inl e)
      | Inr t \<Rightarrow> (g\<lparr>tree := t\<rparr>, Inr ()))"

definition numToFr :: "nat \<Rightarrow> Fr" where
  "numToFr num = num"

definition generator_deposit ::
    "NoirCircuitTomlGenerator \<Rightarrow> Fr \<Rightarrow> Fr \<Rightarrow> NoirCircuitTomlGenerator \<times> (error + unit)" where
  "generator_deposit g id' r =
     (let indexNumber = totalLeaves (tree g);
          indexFr = numToFr indexNumber;
          oldRoot = root (tree g)
      in case proof_mt (tree g) indexNumber of
           Inl e \<Rightarrow> (g, Inl e)
         | Inr prf \<Rightarrow>
             let hashPath = pathElements prf
             in case pedersenHash (tree g) (Some id') (Some r) of
                  Inl e \<Rightarrow> (g, Inl e)
                | Inr commitment \<Rightarrow>
                    (case insert_mt (tree g) commitment of
                       Inl e \<Rightarrow> (g, Inl e)
                     | Inr tree' \<Rightarrow>
                         let newRoot = root tree';
                             record' = \<lparr>rec_id = id', rec_r = r, rec_commitment = commitment,
                                        rec_index = indexFr, rec_oldRoot = oldRoot,
                                        rec_newRoot = newRoot, rec_hashPath = hashPath,
                                        rec_pathIndices = pathIndices prf\<rparr>
                         in (g\<lparr>tree := tree', deposits := deposits g @ [record']\<rparr>, Inr ())))"

text \<open>\<open>fr.toString()\<close>: a TypeError on \<open>undefined\<close>.\<close>

definition toString :: "Fr option \<Rightarrow> error + Fr" where
  "toString x = (case x of None \<Rightarrow> Inl TypeError | Some v \<Rightarrow> Inr v)"

fun toStrings :: "Fr option list \<Rightarrow> error + Fr list" where
  "toStrings [] = Inr []"
| "toStrings (x # xs) =
     (case toString x of
        Inl e \<Rightarrow> Inl e
      | Inr v \<Rightarrow> (case toStrings xs of Inl e \<Rightarrow> Inl e | Inr vs \<Rightarrow> Inr (v # vs)))"

definition deposit_toml ::
    "Fr \<Rightarrow> Fr \<Rightarrow> Fr option list \<Rightarrow> Fr option \<Rightarrow> Fr option \<Rightarrow> Fr \<Rightarrow> Fr \<Rightarrow> error + toml" where
  "deposit_toml id' r hashPath oldRoot newRoot commitment indexFr =
     (case toStrings hashPath of
        Inl e \<Rightarrow> Inl e
      | Inr path \<Rightarrow>
          (case toString oldRoot of
             Inl e \<Rightarrow> Inl e
           | Inr old \<Rightarrow>
               (case toString newRoot of
                  Inl e \<Rightarrow> Inl e
                | Inr new \<Rightarrow>
                    Inr [(''id'', Str id'), (''r'', Str r), (''oldPath'', Arr path),
                         (''oldRoot'', Str old), (''newRoot'', Str new),
                         (''commitment'', Str commitment), (''index'', Str indexFr)])))"

definition withdraw_toml :: "DepositRecord \<Rightarrow> error + toml" where
  "withdraw_toml record' =
     (case toStrings (rec_hashPath record') of
        Inl e \<Rightarrow> Inl e
      | Inr path \<Rightarrow>
          (case toString (rec_newRoot record') of
             Inl e \<Rightarrow> Inl e
           | Inr new \<Rightarrow>
               Inr [(''r'', Str (rec_r record')), (''index'', Str (rec_index record')),
                    (''path'', Arr path), (''root'', Str new), (''id'', Str (rec_id record'))]))"

text \<open>The circuit type of gentoml with the parameters that go with it.\<close>

datatype gentoml_args =
    DepositArgs Fr Fr
  | WithdrawArgs nat
  | OtherArgs

fun gentoml ::
    "NoirCircuitTomlGenerator \<Rightarrow> gentoml_args \<Rightarrow> NoirCircuitTomlGenerator \<times> (error + toml)" where
  "gentoml g (DepositArgs id' r) =
     (let indexNumber = totalLeaves (tree g);
          indexFr = numToFr indexNumber;
          oldRoot = root (tree g)
      in case proof_mt (tree g) indexNumber of
           Inl e \<Rightarrow> (g, Inl e)
         | Inr prf \<Rightarrow>
             let hashPath = pathElements prf
             in case pedersenHash (tree g) (Some id') (Some r) of
                  Inl e \<Rightarrow> (g, Inl e)
                | Inr commitment \<Rightarrow>
                    (case insert_mt (tree g) commitment of
                       Inl e \<Rightarrow> (g, Inl e)
                     | Inr tree' \<Rightarrow>
                         let newRoot = root tree';
                             record' = \<lparr>rec_id = id', rec_r = r, rec_commitment = commitment,
                                        rec_index = indexFr, rec_oldRoot = oldRoot,
                                        rec_newRoot = newRoot, rec_hashPath = hashPath,
                                        rec_pathIndices = pathIndices prf\<rparr>
                         in (g\<lparr>tree := tree', deposits := deposits g @ [record']\<rparr>,
                             deposit_toml id' r hashPath oldRoot newRoot commitment indexFr)))"
| "gentoml g (WithdrawArgs indexNumber) =
     (let indexFr = numToFr indexNumber
      in case find (\<lambda>rec. rec_index rec = indexFr) (deposits g) of
           None \<Rightarrow> (g, Inl (NoDepositRecord indexNumber))
         | Some record' \<Rightarrow> (g, withdraw_toml record'))"
| "gentoml g OtherArgs = (g, Inl InvalidCircuitType)"

text \<open>A call of a method of the generator, and the generator after a sequence of calls.\<close>

datatype gen_call =
    CallInit "Fr \<Rightarrow> Fr \<Rightarrow> Fr"
  | CallGenDeposit Fr Fr
  | CallGentoml gentoml_args

fun gen_step :: "NoirCircuitTomlGenerator \<Rightarrow> gen_call \<Rightarrow> NoirCircuitTomlGenerator" where
  "gen_step g (CallInit singleton) = fst (init singleton g)"
| "gen_step g (CallGenDeposit id' r) = fst (generator_deposit g id' r)"
| "gen_step g (CallGentoml args) = fst (gentoml g args)"

definition gen_run :: "NoirCircuitTomlGenerator \<Rightarrow> gen_call list \<Rightarrow> NoirCircuitTomlGenerator" where
  "gen_run g cs = foldl gen_step g cs"

section \<open>Definitions used by the statements and the proofs\<close>

unbundle bit_operations_syntax

subsection \<open>The walks in the words of the specification\<close>

text \<open>
  Re-deriving a root by hand from a proof: at each level the current value is hashed with
  the path element of that level; the path index says on which side the current value
  stands (0: left, 1: right).
\<close>

fun fold_path :: "(Fr \<Rightarrow> Fr \<Rightarrow> Fr) \<Rightarrow> Fr \<Rightarrow> Fr list \<Rightarrow> nat list \<Rightarrow> Fr" where
  "fold_path H cur (e # es) (b # bs) = fold_path H (if b = 0 then H cur e else H e cur) es bs"
| "fold_path H cur _ _ = cur"

text \<open>
  The walk of the accumulator over a given sibling path: the parity of the current index
  decides the side (an even index puts the current element on the left), and the index
  is halved from level to level.
\<close>

fun accumulator_walk :: "(Fr \<Rightarrow> Fr \<Rightarrow> Fr) \<Rightarrow> nat \<Rightarrow> Fr list \<Rightarrow> Fr \<Rightarrow> Fr" where
  "accumulator_walk H currentIndex [] currentElement = currentElement"
| "accumulator_walk H currentIndex (siblingElement # rest) currentElement =
     accumulator_walk H (currentIndex div 2) rest
       (if currentIndex mod 2 = 0 then H currentElement siblingElement
        else H siblingElement currentElement)"

subsection \<open>Notions of the proofs\<close>

text \<open>The sibling index that traverse hands to its handler.\<close>

definition sibling :: "nat \<Rightarrow> nat" where
  "sibling c = (if c mod 2 = 0 then c + 1 else c - 1)"

text \<open>The value of a node of a tree whose zeros are built: the stored one, or the zero of the level.\<close>

definition val :: "MerkleTree \<Rightarrow> nat \<Rightarrow> nat \<Rightarrow> Fr" where
  "val t level index =
     (case storage t (level, index) of Some v \<Rightarrow> v | None \<Rightarrow> zeros t ! level)"

text \<open>
  The value that update reaches at level \<open>k\<close> on the way up from the leaf \<open>cur\<close> at
  index \<open>idx\<close>, when \<open>p i\<close> is the sibling met at level \<open>i\<close>; and the same with the
  siblings of the tree \<open>t\<close>.
\<close>

definition hash_up :: "(Fr \<Rightarrow> Fr \<Rightarrow> Fr) \<Rightarrow> nat \<Rightarrow> (nat \<Rightarrow> Fr) \<Rightarrow> Fr \<Rightarrow> nat \<Rightarrow> Fr" where
  "hash_up H idx p cur k =
     foldl (\<lambda>c i. if (idx div 2 ^ i) mod 2 = 0 then H c (p i) else H (p i) c) cur [0..<k]"

definition path_val :: "(Fr \<Rightarrow> Fr \<Rightarrow> Fr) \<Rightarrow> MerkleTree \<Rightarrow> nat \<Rightarrow> Fr \<Rightarrow> nat \<Rightarrow> Fr" where
  "path_val H t idx leaf k = hash_up H idx (\<lambda>i. val t i (sibling (idx div 2 ^ i))) leaf k"

text \<open>A tree after initialize: the hasher is set and every level has its zero.\<close>

definition ready :: "(Fr \<Rightarrow> Fr \<Rightarrow> Fr) \<Rightarrow> MerkleTree \<Rightarrow> bool" where
  "ready H t \<longleftrightarrow> bb t = Some H \<and> levels t < length (zeros t)"

text \<open>The invariant of the tree: every node above the leaves is the hash of its two children.\<close>

definition consistent :: "(Fr \<Rightarrow> Fr \<Rightarrow> Fr) \<Rightarrow> MerkleTree \<Rightarrow> bool" where
  "consistent H t \<longleftrightarrow>
     ready H t \<and>
     (\<forall>l j. l < levels t \<longrightarrow> val t (Suc l) j = H (val t l (2 * j)) (val t l (2 * j + 1)))"

text \<open>The invariant of the generator.\<close>

definition gen_inv :: "NoirCircuitTomlGenerator \<Rightarrow> bool" where
  "gen_inv g \<longleftrightarrow>
     length (deposits g) = totalLeaves (tree g) \<and> levels (tree g) = 8
     \<and> (bb (tree g) \<noteq> None \<longrightarrow> levels (tree g) < length (zeros (tree g)))"

subsection \<open>Concrete inputs\<close>

text \<open>
  A world whose verifiers accept everything, a world whose verifiers accept one list of
  public inputs and nothing else, and a ledger of depth 8 after its first deposit (new
  root 5, commitment 6): the state that the constructor and one call of deposit produce
  (lemma \<open>ledger0_reachable\<close>).
\<close>

definition world0 :: world where
  "world0 = \<lparr>verify = (\<lambda>a p inputs. True), accepts = (\<lambda>a s. True)\<rparr>"

definition picky_world :: "bytes32 list \<Rightarrow> world" where
  "picky_world inputs = \<lparr>verify = (\<lambda>a p xs. xs = inputs), accepts = (\<lambda>a s. True)\<rparr>"

definition ledger0 :: Whirlwind where
  "ledger0 = \<lparr>depositVerifier = 1, withdrawVerifier = 2, depositIndex = 1, maxDeposits = 256,
               usedNullifiers = (\<lambda>_. False), currentRoot = 5, owner = 3,
               balance = 100000000000000000, events = [Deposit 5 6 0]\<rparr>"

text \<open>
  A hash function for the examples, and two trees of depth 1 over it: the one initialize
  builds from no leaves, and the one it builds from the leaves 1 and 2.
\<close>

definition H0 :: "Fr \<Rightarrow> Fr \<Rightarrow> Fr" where
  "H0 l r = l + 2 * r + 1"

definition empty_tree1 :: MerkleTree where
  "empty_tree1 =
     \<lparr>levels = 1, storage = (\<lambda>_. None), zeros = [zeroValue, H0 zeroValue zeroValue],
      totalLeaves = 0, bb = Some H0\<rparr>"

definition full_tree1 :: MerkleTree where
  "full_tree1 =
     \<lparr>levels = 1,
      storage = (\<lambda>k. if k = (0, 0) then Some 1 else if k = (0, 1) then Some 2
                     else if k = (1, 0) then Some (H0 1 2) else None),
      zeros = [zeroValue, H0 zeroValue zeroValue],
      totalLeaves = 2, bb = Some H0\<rparr>"

section \<open>The ledger: deposit and withdraw\<close>


lemma word_less_not_max: "(x::'a::len word) < y \<Longrightarrow> x \<noteq> - 1"
  by (metis word_order.extremum_strict)

lemma word_less_unat_Suc: "(x::'a::len word) < y \<Longrightarrow> unat (x + 1) = unat x + 1"
  using word_less_not_max[of x y] unatSuc[of x] by (simp add: add.commute add_eq_0_iff)

lemma deposit_accepts:
  assumes "depositIndex s < maxDeposits s" and "msg_value m = ether_0_1"
  shows "deposit w s m prf newRoot commitment =
     (if verify w (depositVerifier s) prf [currentRoot s, newRoot, commitment, depositIndex s]
      then Inr (s\<lparr>balance := balance s + unat ether_0_1,
                   currentRoot := newRoot,
                   events := events s @ [Deposit newRoot commitment (depositIndex s)],
                   depositIndex := depositIndex s + 1\<rparr>)
      else Inl InvalidDepositProof)"
  using assms word_less_not_max[of "depositIndex s" "maxDeposits s"]
  by (simp add: deposit_def Let_def)

lemma deposit_index_no_wrap:
  assumes "deposit w s m prf newRoot commitment = Inr s'"
  shows "unat (depositIndex s') = unat (depositIndex s) + 1"
proof -
  have l: "depositIndex s < maxDeposits s"
    using assms by (auto simp: deposit_def Let_def split: if_splits)
  have "depositIndex s' = depositIndex s + 1"
    using assms by (auto simp: deposit_def Let_def split: if_splits)
  then show ?thesis
    using word_less_unat_Suc[OF l] by simp
qed

lemma withdraw_unfold:
  "withdraw w s a prf n =
     (if usedNullifiers s n then Inl NullifierAlreadyUsed
      else if \<not> verify w (withdrawVerifier s) prf [currentRoot s, n] then Inl InvalidWithdrawProof
      else if balance s < unat ether_0_1 then Inl TransferFailed
      else if \<not> accepts w a (s\<lparr>usedNullifiers := (usedNullifiers s)(n := True),
                    events := events s @ [Withdraw a n],
                    balance := balance s - unat ether_0_1\<rparr>) then Inl TransferFailed
      else Inr (s\<lparr>usedNullifiers := (usedNullifiers s)(n := True),
                    events := events s @ [Withdraw a n],
                    balance := balance s - unat ether_0_1\<rparr>))"
  by (simp add: withdraw_def transfer_def Let_def)

lemma withdraw_marks: "withdraw w s a prf n = Inr s' \<Longrightarrow> usedNullifiers s' n"
  by (auto simp: withdraw_unfold split: if_splits)

lemma withdraw_keeps: "withdraw w s a prf n = Inr s' \<Longrightarrow> usedNullifiers s x \<Longrightarrow> usedNullifiers s' x"
  by (auto simp: withdraw_unfold split: if_splits)

lemma deposit_keeps: "deposit w s m prf r c = Inr s' \<Longrightarrow> usedNullifiers s' = usedNullifiers s"
  by (auto simp: deposit_def Let_def split: if_splits)

lemma step_keeps: "usedNullifiers s x \<Longrightarrow> usedNullifiers (step s c) x"
  by (cases c) (auto simp: after_def deposit_keeps withdraw_keeps split: sum.splits)

lemma run_keeps: "usedNullifiers s x \<Longrightarrow> usedNullifiers (run s cs) x"
  unfolding run_def by (induction cs arbitrary: s) (simp_all add: step_keeps)

lemma withdraw_used: "usedNullifiers s n \<Longrightarrow> withdraw w s a prf n = Inl NullifierAlreadyUsed"
  by (simp add: withdraw_def)

text \<open>
  Claim C3. Once withdraw has succeeded for a nullifier \<open>X\<close>, a withdraw that presents
  \<open>X\<close> is rejected with "Nullifier already used" after every sequence \<open>cs\<close> of
  later calls, for every sender and every proof, and in every world: the answer of the
  verifier plays no part, the first \<open>require\<close> of withdraw rejects the call before the
  verifier is asked. The set of used nullifiers only grows: a nullifier that is marked
  stays marked after every call of deposit or withdraw (reverted or not) and after every
  sequence of calls.
\<close>
theorem double_spend_rejected:
  "(withdraw w s a prf X = Inr s1 \<longrightarrow>
      withdraw w' (run s1 cs) a' prf' X = Inl NullifierAlreadyUsed)
   \<and> (usedNullifiers s n \<longrightarrow> usedNullifiers (step s c) n \<and> usedNullifiers (run s cs) n)"
  by (simp add: withdraw_marks run_keeps step_keeps withdraw_used)

lemma unat_ether: "unat ether_0_1 = 100000000000000000"
  by (simp add: ether_0_1_def)

lemma ledger0_reachable:
  "(case constructor 3 1 2 8 4 of
      Inl e \<Rightarrow> False
    | Inr s \<Rightarrow>
        deposit world0 s \<lparr>msg_sender = 7, msg_value = ether_0_1\<rparr> [] 5 6 = Inr ledger0
        \<and> deposit_hw5 world0 s \<lparr>msg_sender = 7, msg_value = ether_0_1\<rparr> [] 5 6 = Inr ledger0)"
  by (simp add: constructor_def deposit_def deposit_hw5_def Let_def world0_def ledger0_def unat_ether)

text \<open>
  Claim C1. The operation withdraw takes the two arguments (proof, nullifier) and has the
  proof verified against the public inputs [currentRoot, nullifier], where currentRoot is
  the root the ledger stores; on success it marks the nullifier, emits Withdraw and pays
  0.1 ether to the caller. The contract of src/unnamed/part_001 does so (lemma
  \<open>withdraw_unfold\<close> above). The contract of src/hw5/contracts/whirlwind.sol does not: its
  withdraw takes a third argument \<open>root\<close> from the caller and has the proof verified
  against [root, nullifier]. On the ledger after its first deposit, whose root is 5, with a
  verifier that accepts the public inputs [7, 9] and nothing else, the call with root 7
  and nullifier 9 is paid out, although the verifier rejects [currentRoot, 9]; the
  contract of part_001 rejects the same proof.
\<close>
theorem withdraw_hw5_caller_root:
  "currentRoot ledger0 = 5
   \<and> \<not> verify (picky_world [7, 9]) (withdrawVerifier ledger0) [] [currentRoot ledger0, 9]
   \<and> withdraw_hw5 (picky_world [7, 9]) ledger0 4 [] 7 9 =
       Inr (ledger0\<lparr>usedNullifiers := (usedNullifiers ledger0)(9 := True),
                     events := [Deposit 5 6 0, Withdraw 4 9], balance := 0\<rparr>)
   \<and> withdraw (picky_world [7, 9]) ledger0 4 [] 9 = Inl InvalidWithdrawProof"
  by (simp add: withdraw_hw5_def withdraw_def transfer_def Let_def picky_world_def ledger0_def unat_ether)

text \<open>
  Claim C2. With depositIndex below maxDeposits and a payment of 0.1 ether, deposit has the
  proof verified against [currentRoot, newRoot, commitment, depositIndex], in this order.
  The contract of src/unnamed/part_001 does so (lemmas \<open>deposit_accepts\<close> and
  \<open>deposit_index_no_wrap\<close> above). The contract of src/hw5/contracts/whirlwind.sol hands
  the verifier the packed bytes of (commitment, depositIndex, newRoot): the current root
  is no public input, and the order is another. On the ledger after its first deposit
  (root 5, index 1), with a verifier that accepts the public inputs [11, 1, 10] and
  nothing else, the deposit of commitment 11 with new root 10 is accepted, although the
  verifier rejects [currentRoot, newRoot, commitment, depositIndex]; the contract of
  part_001 rejects it.
\<close>
theorem deposit_hw5_unbound_root:
  "currentRoot ledger0 = 5 \<and> depositIndex ledger0 = 1
   \<and> \<not> verify (picky_world [11, 1, 10]) (depositVerifier ledger0) []
         [currentRoot ledger0, 10, 11, depositIndex ledger0]
   \<and> deposit_hw5 (picky_world [11, 1, 10]) ledger0 \<lparr>msg_sender = 4, msg_value = ether_0_1\<rparr> [] 10 11 =
       Inr (ledger0\<lparr>balance := 200000000000000000, currentRoot := 10,
                     events := [Deposit 5 6 0, Deposit 10 11 1], depositIndex := 2\<rparr>)
   \<and> deposit (picky_world [11, 1, 10]) ledger0 \<lparr>msg_sender = 4, msg_value = ether_0_1\<rparr> [] 10 11 =
       Inl InvalidDepositProof"
  by (simp add: deposit_hw5_def deposit_def Let_def picky_world_def ledger0_def unat_ether)

theorem double_spend_rejected_witness:
  "withdraw world0 ledger0 4 [] 9 =
     Inr (ledger0\<lparr>usedNullifiers := (usedNullifiers ledger0)(9 := True),
                   events := [Deposit 5 6 0, Withdraw 4 9], balance := 0\<rparr>)
   \<and> withdraw world0
        (run (ledger0\<lparr>usedNullifiers := (usedNullifiers ledger0)(9 := True),
                   events := [Deposit 5 6 0, Withdraw 4 9], balance := 0\<rparr>)
           [CallDeposit world0 \<lparr>msg_sender = 4, msg_value = ether_0_1\<rparr> [] 10 11])
        6 [1] 9 = Inl NullifierAlreadyUsed
   \<and> usedNullifiers (ledger0\<lparr>usedNullifiers := (usedNullifiers ledger0)(9 := True)\<rparr>) 9
   \<and> usedNullifiers (run (ledger0\<lparr>usedNullifiers := (usedNullifiers ledger0)(9 := True)\<rparr>)
           [CallDeposit world0 \<lparr>msg_sender = 4, msg_value = ether_0_1\<rparr> [] 10 11]) 9"
proof -
  let ?s1 = "ledger0\<lparr>usedNullifiers := (usedNullifiers ledger0)(9 := True),
                   events := [Deposit 5 6 0, Withdraw 4 9], balance := 0\<rparr>"
  let ?cs = "[CallDeposit world0 \<lparr>msg_sender = 4, msg_value = ether_0_1\<rparr> [] 10 11]"
  have h: "withdraw world0 ledger0 4 [] 9 = Inr ?s1"
    by (simp add: withdraw_def transfer_def Let_def world0_def ledger0_def unat_ether)
  have u: "usedNullifiers (ledger0\<lparr>usedNullifiers := (usedNullifiers ledger0)(9 := True)\<rparr>) 9"
    by simp
  from double_spend_rejected[of world0 ledger0 4 "[]" 9 ?s1 world0 ?cs 6 "[1]" 9 "hd ?cs"] h
  have a: "withdraw world0 (run ?s1 ?cs) 6 [1] 9 = Inl NullifierAlreadyUsed" by blast
  from double_spend_rejected[of world0 "ledger0\<lparr>usedNullifiers := (usedNullifiers ledger0)(9 := True)\<rparr>"
      4 "[]" 9 ?s1 world0 ?cs 6 "[1]" 9 "hd ?cs"] u
  have b: "usedNullifiers (run (ledger0\<lparr>usedNullifiers := (usedNullifiers ledger0)(9 := True)\<rparr>) ?cs) 9"
    by blast
  show ?thesis using h a u b by blast
qed

text \<open>
  Claim C10. In withdraw, of both contracts, the nullifier is marked before the payout.
  The recipient's code runs during the transfer and sees the storage of that moment: the
  result of withdraw is the same when the recipient, in addition, insists on seeing the
  nullifier marked, and a recipient that accepts only when it sees the nullifier unmarked
  is never paid. On a storage where the nullifier is marked, a further withdraw with it is
  rejected with "Nullifier already used", whatever the world, the sender and the proof.
\<close>
theorem nullifier_recorded_before_payout:
  "withdraw (w\<lparr>accepts := \<lambda>to st. accepts w to st \<and> usedNullifiers st n\<rparr>) s a prf n
     = withdraw w s a prf n
   \<and> withdraw_hw5 (w\<lparr>accepts := \<lambda>to st. accepts w to st \<and> usedNullifiers st n\<rparr>) s a prf r n
     = withdraw_hw5 w s a prf r n
   \<and> withdraw (w\<lparr>accepts := \<lambda>to st. \<not> usedNullifiers st n\<rparr>) s a prf n \<noteq> Inr s'
   \<and> withdraw_hw5 (w\<lparr>accepts := \<lambda>to st. \<not> usedNullifiers st n\<rparr>) s a prf r n \<noteq> Inr s'
   \<and> (usedNullifiers st n \<longrightarrow>
        withdraw w' st a' prf' n = Inl NullifierAlreadyUsed
      \<and> withdraw_hw5 w' st a' prf' r' n = Inl NullifierAlreadyUsed)"
  by (simp add: withdraw_def withdraw_hw5_def transfer_def Let_def)

theorem nullifier_recorded_before_payout_witness:
  "usedNullifiers (ledger0\<lparr>usedNullifiers := (usedNullifiers ledger0)(9 := True)\<rparr>) 9
   \<and> withdraw world0 (ledger0\<lparr>usedNullifiers := (usedNullifiers ledger0)(9 := True)\<rparr>) 6 [1] 9
       = Inl NullifierAlreadyUsed
   \<and> withdraw_hw5 world0 (ledger0\<lparr>usedNullifiers := (usedNullifiers ledger0)(9 := True)\<rparr>) 6 [1] 5 9
       = Inl NullifierAlreadyUsed
   \<and> withdraw (world0\<lparr>accepts := \<lambda>to st. accepts world0 to st \<and> usedNullifiers st 9\<rparr>) ledger0 4 [] 9
       = withdraw world0 ledger0 4 [] 9
   \<and> withdraw world0 ledger0 4 [] 9 =
       Inr (ledger0\<lparr>usedNullifiers := (usedNullifiers ledger0)(9 := True),
                     events := [Deposit 5 6 0, Withdraw 4 9], balance := 0\<rparr>)"
proof -
  let ?st = "ledger0\<lparr>usedNullifiers := (usedNullifiers ledger0)(9 := True)\<rparr>"
  have u: "usedNullifiers ?st 9" by simp
  have h: "withdraw world0 ledger0 4 [] 9 =
       Inr (ledger0\<lparr>usedNullifiers := (usedNullifiers ledger0)(9 := True),
                     events := [Deposit 5 6 0, Withdraw 4 9], balance := 0\<rparr>)"
    by (simp add: withdraw_def transfer_def Let_def world0_def ledger0_def unat_ether)
  from nullifier_recorded_before_payout[of world0 9 ledger0 4 "[]" 5 ledger0 ?st world0 6 "[1]" 5] u h
  show ?thesis by blast
qed

section \<open>The accumulator: what a traversal computes\<close>


lemma upt_0_Suc: "[0..<Suc n] = 0 # map Suc [0..<n]"
  by (simp add: upt_conv_Cons map_Suc_upt del: upt_Suc)

lemma foldl_upt_shift: "foldl f s [0..<Suc n] = foldl (\<lambda>c i. f c (Suc i)) (f s 0) [0..<n]"
  by (simp only: upt_0_Suc foldl_Cons foldl_map)

lemma div_pow_Suc: "(idx::nat) div 2 ^ Suc k = (idx div 2) div 2 ^ k"
  by (simp add: div_mult2_eq)

lemma hash_up_0: "hash_up H idx p cur 0 = cur"
  by (simp add: hash_up_def)

lemma hash_up_Suc_shift:
  "hash_up H idx p cur (Suc k) =
     hash_up H (idx div 2) (\<lambda>i. p (Suc i))
       (if idx mod 2 = 0 then H cur (p 0) else H (p 0) cur) k"
  unfolding hash_up_def by (simp only: foldl_upt_shift div_pow_Suc) simp

lemma hash_up_Suc:
  "hash_up H idx p cur (Suc k) =
     (if (idx div 2 ^ k) mod 2 = 0 then H (hash_up H idx p cur k) (p k)
      else H (p k) (hash_up H idx p cur k))"
  by (simp add: hash_up_def)

lemma traverse_loop_proof:
  "traverse_loop n i idx (proof_handleIndex t) (es, bs) =
     Inr (es @ map (\<lambda>k. node t (i + k) (sibling (idx div 2 ^ k))) [0..<n],
          bs @ map (\<lambda>k. (idx div 2 ^ k) mod 2) [0..<n])"
proof (induction n arbitrary: i idx es bs)
  case 0
  then show ?case by simp
next
  case (Suc n)
  show ?case
    apply (simp only: traverse_loop.simps Let_def)
    apply (simp only: proof_handleIndex_def Let_def prod.case sum.case Suc.IH)
    apply (simp only: upt_0_Suc list.map)
    apply (simp add: sibling_def comp_def div_mult2_eq)
    done
qed

lemma traverse_loop_update:
  assumes "bb t = Some H"
    and "\<And>k. k < n \<Longrightarrow> node t (i + k) (sibling (idx div 2 ^ k)) = Some (p k)"
  shows "traverse_loop n i idx (update_handleIndex t) (kvs, cur) =
     Inr (kvs @ map (\<lambda>k. (indexToKey (i + k) (idx div 2 ^ k), hash_up H idx p cur k)) [0..<n],
          hash_up H idx p cur n)"
  using assms
proof (induction n arbitrary: i idx kvs cur p)
  case 0
  then show ?case by (simp add: hash_up_0)
next
  case (Suc n)
  have s0: "node t i (sibling idx) = Some (p 0)"
    using Suc.prems(2)[of 0] by simp
  have sk: "\<And>k. k < n \<Longrightarrow> node t (Suc i + k) (sibling ((idx div 2) div 2 ^ k)) = Some (p (Suc k))"
    using Suc.prems(2)[of "Suc _"] by (simp add: div_pow_Suc del: power_Suc)
  let ?c = "if idx mod 2 = 0 then H cur (p 0) else H (p 0) cur"
  have h: "update_handleIndex t i idx (sibling idx) (kvs, cur) =
             Inr (kvs @ [(indexToKey i idx, cur)], ?c)"
    using s0 Suc.prems(1) by (simp add: update_handleIndex_def pedersenHash_def Let_def)
  have ih: "traverse_loop n (Suc i) (idx div 2) (update_handleIndex t) (kvs @ [(indexToKey i idx, cur)], ?c) =
     Inr ((kvs @ [(indexToKey i idx, cur)]) @
          map (\<lambda>k. (indexToKey (Suc i + k) ((idx div 2) div 2 ^ k),
                     hash_up H (idx div 2) (\<lambda>i. p (Suc i)) ?c k)) [0..<n],
          hash_up H (idx div 2) (\<lambda>i. p (Suc i)) ?c n)"
    by (rule Suc.IH[OF Suc.prems(1) sk])
  have "traverse_loop (Suc n) i idx (update_handleIndex t) (kvs, cur) =
        traverse_loop n (Suc i) (idx div 2) (update_handleIndex t) (kvs @ [(indexToKey i idx, cur)], ?c)"
    using h by (simp add: sibling_def Let_def)
  also note ih
  finally show ?case
    by (simp only: upt_0_Suc list.map hash_up_Suc_shift[symmetric] div_pow_Suc[symmetric] hash_up_0)
       (simp add: comp_def del: power_Suc)
qed

lemma node_val: "level < length (zeros t) \<Longrightarrow> node t level index = Some (val t level index)"
  by (simp add: node_def val_def zeros_at_def indexToKey_def split: option.splits)

lemma commit_append: "commit m (xs @ ys) = commit (commit m xs) ys"
  by (induction xs arbitrary: m) auto

lemma commit_snoc: "commit m (xs @ [(k, v)]) = (commit m xs)(k \<mapsto> v)"
  by (simp add: commit_append fun_upd_def)

lemma commit_levels:
  "commit m (map (\<lambda>k. ((k, g k), W k)) [0..<n]) (l, j) =
     (if l < n \<and> j = g l then Some (W l) else m (l, j))"
proof (induction n)
  case 0
  then show ?case by simp
next
  case (Suc n)
  have "commit m (map (\<lambda>k. ((k, g k), W k)) [0..<Suc n]) =
        (commit m (map (\<lambda>k. ((k, g k), W k)) [0..<n]))((n, g n) \<mapsto> W n)"
    by (simp add: commit_snoc)
  then show ?case
    using Suc.IH by (auto simp: less_Suc_eq)
qed

lemma update_result:
  assumes r: "ready H t"
    and g1: "\<not> (\<not> ins \<and> idx \<ge> totalLeaves t)"
    and g2: "\<not> (ins \<and> idx < totalLeaves t)"
  shows "update t idx leaf ins =
     Inr (t\<lparr>storage := (\<lambda>(l, j).
            if l < levels t \<and> j = idx div 2 ^ l then Some (path_val H t idx leaf l)
            else if l = levels t \<and> j = 0 then Some (path_val H t idx leaf (levels t))
            else storage t (l, j))\<rparr>)"
proof -
  let ?p = "\<lambda>i. val t i (sibling (idx div 2 ^ i))"
  have sib: "\<And>k. k < levels t \<Longrightarrow> node t (0 + k) (sibling (idx div 2 ^ k)) = Some (?p k)"
    using r by (simp add: node_val ready_def)
  have bbt: "bb t = Some H" using r by (simp add: ready_def)
  have tr: "traverse t idx (update_handleIndex t) ([], leaf) =
      Inr (map (\<lambda>k. ((k, idx div 2 ^ k), path_val H t idx leaf k)) [0..<levels t],
           path_val H t idx leaf (levels t))"
    unfolding traverse_def path_val_def
    using traverse_loop_update[OF bbt sib, of "levels t" "[]" leaf]
    by (simp add: indexToKey_def)
  have st: "commit (storage t)
        (map (\<lambda>k. ((k, idx div 2 ^ k), path_val H t idx leaf k)) [0..<levels t]
          @ [(indexToKey (levels t) 0, path_val H t idx leaf (levels t))]) =
      (\<lambda>(l, j).
            if l < levels t \<and> j = idx div 2 ^ l then Some (path_val H t idx leaf l)
            else if l = levels t \<and> j = 0 then Some (path_val H t idx leaf (levels t))
            else storage t (l, j))"
    by (rule ext) (auto simp: commit_snoc indexToKey_def commit_levels split: if_splits)
  show ?thesis
    using g1 g2 by (simp add: update_def tr st)
qed

lemma path_val_0: "path_val H t idx leaf 0 = leaf"
  by (simp add: path_val_def hash_up_0)

lemma path_val_Suc:
  "path_val H t idx leaf (Suc l) =
     (if (idx div 2 ^ l) mod 2 = 0
      then H (path_val H t idx leaf l) (val t l (sibling (idx div 2 ^ l)))
      else H (val t l (sibling (idx div 2 ^ l))) (path_val H t idx leaf l))"
  unfolding path_val_def by (rule hash_up_Suc)

lemma update_Inr_guards:
  "update t idx leaf ins = Inr t' \<Longrightarrow>
     \<not> (\<not> ins \<and> idx \<ge> totalLeaves t) \<and> \<not> (ins \<and> idx < totalLeaves t)"
  by (auto simp: update_def split: if_splits)

lemma update_val:
  assumes r: "ready H t" and u: "update t idx leaf ins = Inr t'" and b: "idx < 2 ^ levels t"
  shows "val t' l j =
     (if l \<le> levels t \<and> j = idx div 2 ^ l then path_val H t idx leaf l else val t l j)"
proof -
  note g = update_Inr_guards[OF u]
  have t': "t' = t\<lparr>storage := (\<lambda>(l, j).
            if l < levels t \<and> j = idx div 2 ^ l then Some (path_val H t idx leaf l)
            else if l = levels t \<and> j = 0 then Some (path_val H t idx leaf (levels t))
            else storage t (l, j))\<rparr>"
    using update_result[OF r, of ins idx leaf] g u by simp
  have z: "idx div 2 ^ levels t = 0" using b by simp
  show ?thesis
    by (subst t') (auto simp: val_def z split: option.splits)
qed

lemma update_frame:
  assumes r: "ready H t" and u: "update t idx leaf ins = Inr t'"
  shows "levels t' = levels t \<and> zeros t' = zeros t \<and> bb t' = bb t \<and> totalLeaves t' = totalLeaves t"
  using update_result[OF r, of ins idx leaf] update_Inr_guards[OF u] u by auto

lemma even_odd_halves:
  fixes c :: nat
  shows "c mod 2 = 0 \<Longrightarrow> 2 * (c div 2) = c \<and> sibling c = 2 * (c div 2) + 1"
    and "c mod 2 \<noteq> 0 \<Longrightarrow> 2 * (c div 2) + 1 = c \<and> sibling c = 2 * (c div 2)"
  unfolding sibling_def by presburger+

lemma update_consistent:
  assumes c: "consistent H t" and u: "update t idx leaf ins = Inr t'" and b: "idx < 2 ^ levels t"
  shows "consistent H t'"
proof -
  have r: "ready H t" using c by (simp add: consistent_def)
  note fr = update_frame[OF r u]
  have r': "ready H t'" using r fr by (simp add: ready_def)
  have inv: "\<And>l j. l < levels t \<Longrightarrow> val t (Suc l) j = H (val t l (2 * j)) (val t l (2 * j + 1))"
    using c by (simp add: consistent_def)
  have "val t' (Suc l) j = H (val t' l (2 * j)) (val t' l (2 * j + 1))" if l: "l < levels t" for l j
  proof -
    let ?c = "idx div 2 ^ l"
    have half: "idx div 2 ^ Suc l = ?c div 2"
      by (simp only: power_Suc2 div_mult2_eq)
    show ?thesis
    proof (cases "j = ?c div 2")
      case True
      show ?thesis
      proof (cases "?c mod 2 = 0")
        case even: True
        from even_odd_halves(1)[OF even] have e: "2 * j = ?c" "sibling ?c = 2 * j + 1"
          using True by simp_all
        have ne: "2 * j + 1 \<noteq> ?c" using e by simp
        show ?thesis
          using l even e(1) ne
          by (simp add: update_val[OF r u b] half True[symmetric] path_val_Suc e(2) del: power_Suc)
      next
        case odd: False
        from even_odd_halves(2)[OF odd] have e: "2 * j + 1 = ?c" "sibling ?c = 2 * j"
          using True by simp_all
        have ne: "2 * j \<noteq> ?c" using e by simp
        show ?thesis
          using l odd e(1) ne
          by (simp add: update_val[OF r u b] half True[symmetric] path_val_Suc e(2) del: power_Suc)
      qed
    next
      case False
      have ne: "2 * j \<noteq> ?c" "2 * j + 1 \<noteq> ?c" using False by auto
      show ?thesis
        using l False ne inv[OF l, of j]
        by (simp add: update_val[OF r u b] half del: power_Suc)
    qed
  qed
  then show ?thesis
    using r' fr by (simp add: consistent_def)
qed

section \<open>The accumulator: initialize and insert\<close>


lemma funpow_diag:
  "((\<lambda>x. H x x) ^^ k) (H z z) = H (((\<lambda>x. H x x) ^^ k) z) (((\<lambda>x. H x x) ^^ k) z)"
  using funpow_swap1[of "\<lambda>x. H x x" k z] by simp

lemma zeros_loop_result:
  "bb t = Some H \<Longrightarrow>
   zeros_loop t n z = Inr (t\<lparr>zeros := zeros t @ map (\<lambda>k. ((\<lambda>x. H x x) ^^ Suc k) z) [0..<n]\<rparr>)"
proof (induction n arbitrary: t z)
  case 0
  then show ?case by simp
next
  case (Suc n)
  have h: "pedersenHash t (Some z) (Some z) = Inr (H z z)"
    using Suc.prems by (simp add: pedersenHash_def)
  have b: "bb (t\<lparr>zeros := zeros t @ [H z z]\<rparr>) = Some H"
    using Suc.prems by simp
  show ?case
    apply (simp only: zeros_loop.simps h sum.case Suc.IH[OF b])
    apply (simp only: upt_0_Suc list.map)
    apply (simp add: comp_def funpow_diag)
    done
qed

lemma initialize_unfold:
  "initialize H t ls =
     insert_all (t\<lparr>bb := Some H,
                   zeros := zeros t @ map (\<lambda>k. ((\<lambda>x. H x x) ^^ k) zeroValue) [0..<Suc (levels t)]\<rparr>) ls"
proof -
  let ?t2 = "t\<lparr>bb := Some H, zeros := zeros t @ [zeroValue]\<rparr>"
  have b: "bb ?t2 = Some H" by simp
  have "map (\<lambda>k. ((\<lambda>x. H x x) ^^ k) zeroValue) [0..<Suc (levels t)] =
        zeroValue # map (\<lambda>k. ((\<lambda>x. H x x) ^^ Suc k) zeroValue) [0..<levels t]"
    by (simp only: upt_0_Suc list.map) (simp add: comp_def)
  then show ?thesis
    by (simp add: initialize_def Let_def zeros_loop_result[OF b])
qed

lemma initialize_empty:
  "initialize H (new_MerkleTree D) [] =
     Inr \<lparr>levels = D, storage = (\<lambda>_. None),
          zeros = map (\<lambda>k. ((\<lambda>x. H x x) ^^ k) zeroValue) [0..<Suc D],
          totalLeaves = 0, bb = Some H\<rparr>"
  by (simp add: initialize_unfold new_MerkleTree_def del: upt_Suc)

lemma root_before_initialize: "root (new_MerkleTree D) = None"
  by (simp add: root_def node_def zeros_at_def indexToKey_def new_MerkleTree_def)

text \<open>
  Claim C8, as the code has it. For every depth D, initialize with no default leaves
  returns normally, and on the tree it returns, into which nothing has been inserted,
  root() is the zero-leaf constant hashed with itself D times. On every tree a call of
  root() returns normally (it has no failure mode) and leaves the tree as it was (it has
  no side effect).
\<close>
theorem empty_tree_root:
  "(\<exists>t. initialize H (new_MerkleTree D) [] = Inr t
        \<and> totalLeaves t = 0
        \<and> root t = Some (((\<lambda>z. H z z) ^^ D) zeroValue)
        \<and> root_call t = Inr (t, Some (((\<lambda>z. H z z) ^^ D) zeroValue)))
   \<and> root_call t' = Inr (t', root t')"
proof -
  have "(map (\<lambda>k. ((\<lambda>x. H x x) ^^ k) zeroValue) [0..<Suc D]) ! D = ((\<lambda>z. H z z) ^^ D) zeroValue"
    using nth_map_upt[of D "Suc D" 0 "\<lambda>k. ((\<lambda>x. H x x) ^^ k) zeroValue"] by simp
  then show ?thesis
    by (simp add: initialize_empty root_call_def root_def node_def zeros_at_def indexToKey_def
        del: upt_Suc)
qed

text \<open>
  Claim C8 states the value of root() for every tree into which nothing has been
  inserted. The zeros are built by initialize, not by the constructor: on the tree that
  \<open>new MerkleTree(3)\<close> constructs, with no leaf and an empty storage, root() returns
  \<open>undefined\<close>, which is not the zero-leaf constant hashed with itself three times.
\<close>
theorem root_uninitialised_undefined:
  "totalLeaves (new_MerkleTree 3) = 0
   \<and> storage (new_MerkleTree 3) = (\<lambda>_. None)
   \<and> root (new_MerkleTree 3) = None
   \<and> root_call (new_MerkleTree 3) = Inr (new_MerkleTree 3, None)
   \<and> root (new_MerkleTree 3) \<noteq> Some (((\<lambda>z. H0 z z) ^^ 3) zeroValue)"
  by (simp add: root_call_def root_before_initialize) (simp add: new_MerkleTree_def)

lemma initial_consistent:
  "consistent H \<lparr>levels = D, storage = (\<lambda>_. None),
          zeros = map (\<lambda>k. ((\<lambda>x. H x x) ^^ k) zeroValue) [0..<Suc D],
          totalLeaves = 0, bb = Some H\<rparr>"
  by (auto simp: consistent_def ready_def val_def nth_append simp del: upt_Suc)

lemma insert_ready:
  assumes r: "ready H t"
  shows "\<exists>t'. update t (totalLeaves t) leaf True = Inr t'
          \<and> insert_mt t leaf = Inr (t'\<lparr>totalLeaves := totalLeaves t + 1\<rparr>)"
  using update_result[OF r, of True "totalLeaves t" leaf]
  by (simp add: insert_mt_def)

lemma val_totalLeaves [simp]: "val (t\<lparr>totalLeaves := n\<rparr>) l j = val t l j"
  by (simp add: val_def split: option.splits)

lemma consistent_totalLeaves [simp]: "consistent H (t\<lparr>totalLeaves := n\<rparr>) = consistent H t"
  by (simp add: consistent_def ready_def)

lemma insert_consistent:
  assumes c: "consistent H t" and b: "totalLeaves t < 2 ^ levels t"
  shows "\<exists>t'. insert_mt t leaf = Inr t' \<and> consistent H t'
          \<and> totalLeaves t' = totalLeaves t + 1 \<and> levels t' = levels t
          \<and> (\<forall>j. val t' 0 j = (if j = totalLeaves t then leaf else val t 0 j))"
proof -
  have r: "ready H t" using c by (simp add: consistent_def)
  from insert_ready[OF r, of leaf] obtain u where
    u: "update t (totalLeaves t) leaf True = Inr u"
    and i: "insert_mt t leaf = Inr (u\<lparr>totalLeaves := totalLeaves t + 1\<rparr>)" by blast
  have cu: "consistent H u" by (rule update_consistent[OF c u b])
  have v: "\<And>j. val u 0 j = (if j = totalLeaves t then leaf else val t 0 j)"
    by (simp add: update_val[OF r u b] path_val_0)
  show ?thesis
    using i cu v update_frame[OF r u] by simp
qed

lemma insert_all_consistent:
  assumes "consistent H t" and "totalLeaves t + length ls \<le> 2 ^ levels t"
  shows "\<exists>t'. insert_all t ls = Inr t' \<and> consistent H t'
          \<and> totalLeaves t' = totalLeaves t + length ls \<and> levels t' = levels t
          \<and> (\<forall>j. val t' 0 j =
                (if totalLeaves t \<le> j \<and> j < totalLeaves t + length ls
                 then ls ! (j - totalLeaves t) else val t 0 j))"
  using assms
proof (induction ls arbitrary: t)
  case Nil
  then show ?case by simp
next
  case (Cons leaf ls)
  have b: "totalLeaves t < 2 ^ levels t" using Cons.prems(2) by simp
  from insert_consistent[OF Cons.prems(1) b, of leaf] obtain u where
    i: "insert_mt t leaf = Inr u" and cu: "consistent H u"
    and tl: "totalLeaves u = totalLeaves t + 1" and lv: "levels u = levels t"
    and v: "\<forall>j. val u 0 j = (if j = totalLeaves t then leaf else val t 0 j)" by blast
  have bu: "totalLeaves u + length ls \<le> 2 ^ levels u"
    using Cons.prems(2) tl lv by simp
  from Cons.IH[OF cu bu] obtain t' where
    a: "insert_all u ls = Inr t'" and ct: "consistent H t'"
    and tl': "totalLeaves t' = totalLeaves u + length ls" and lv': "levels t' = levels u"
    and v': "\<forall>j. val t' 0 j =
                (if totalLeaves u \<le> j \<and> j < totalLeaves u + length ls
                 then ls ! (j - totalLeaves u) else val u 0 j)" by blast
  have "\<forall>j. val t' 0 j =
                (if totalLeaves t \<le> j \<and> j < totalLeaves t + length (leaf # ls)
                 then (leaf # ls) ! (j - totalLeaves t) else val t 0 j)"
    using v v' tl by (auto simp: nth_Cons')
  then show ?case
    using i a ct tl tl' lv lv' by simp
qed

section \<open>The walk of the circuits and the walk of the accumulator\<close>



lemma proof_result:
  "proof_mt t i =
     Inr \<lparr>proof_root = root t,
          pathElements = map (\<lambda>k. node t k (sibling (i div 2 ^ k))) [0..<levels t],
          pathIndices = map (\<lambda>k. (i div 2 ^ k) mod 2) [0..<levels t],
          proof_leaf = node t 0 i\<rparr>"
  using traverse_loop_proof[of "levels t" 0 i t "[]" "[]"]
  by (simp add: proof_mt_def traverse_def)

lemma accumulator_walk_hash_up:
  "accumulator_walk H idx path cur = hash_up H idx (\<lambda>i. path ! i) cur (length path)"
proof (induction path arbitrary: idx cur)
  case Nil
  then show ?case by (simp add: hash_up_0)
next
  case (Cons e rest)
  show ?case
    by (simp add: Cons.IH hash_up_Suc_shift)
qed

lemma merkle_walk_hash_up:
  "merkle_walk H n (map (\<lambda>i. (idx div 2 ^ i) mod 2) [0..<n]) path cur =
     hash_up H idx (\<lambda>i. path ! i) cur n"
  unfolding merkle_walk_def hash_up_def
  by (rule foldl_cong) auto

lemma circuit_root_walk:
  assumes "index < 2 ^ D" and "length path = D"
  shows "circuit_root H D index path start = Some (accumulator_walk H index path start)"
  using assms
  by (simp add: circuit_root_def to_le_bits_def merkle_walk_hash_up accumulator_walk_hash_up)

lemma circuit_root_Some_iff:
  "circuit_root H n index path start = Some v \<longleftrightarrow>
     length path = n \<and> index < 2 ^ n \<and> accumulator_walk H index path start = v"
proof (cases "length path = n \<and> index < 2 ^ n")
  case True
  then show ?thesis using circuit_root_walk[of index n path H start] by auto
next
  case False
  then show ?thesis by (auto simp: circuit_root_def to_le_bits_def)
qed

lemma deposit_main_iff:
  "deposit_main H id' r oldPath oldRoot newRoot commitment index \<longleftrightarrow>
     H id' r = commitment \<and> length oldPath = 8 \<and> index < 256
     \<and> accumulator_walk H index oldPath zeroValue = oldRoot
     \<and> accumulator_walk H index oldPath commitment = newRoot"
  by (auto simp: deposit_main_def circuit_root_Some_iff)

lemma withdraw_main_iff:
  "withdraw_main H r index path root' id' \<longleftrightarrow>
     length path = 8 \<and> index < 256 \<and> accumulator_walk H index path (H id' r) = root'"
  by (auto simp: withdraw_main_def Let_def circuit_root_Some_iff)





section \<open>Proofs against the root\<close>


lemma fold_path_levels:
  assumes c: "consistent H t" and b: "lv + n \<le> levels t"
  shows "fold_path H (val t lv j)
           (map (\<lambda>k. val t (lv + k) (sibling (j div 2 ^ k))) [0..<n])
           (map (\<lambda>k. (j div 2 ^ k) mod 2) [0..<n]) = val t (lv + n) (j div 2 ^ n)"
  using b
proof (induction n arbitrary: lv j)
  case 0
  then show ?case by simp
next
  case (Suc n)
  have l: "lv < levels t" using Suc.prems by simp
  have inv: "val t (Suc lv) (j div 2) = H (val t lv (2 * (j div 2))) (val t lv (2 * (j div 2) + 1))"
    using c l by (simp add: consistent_def)
  have first: "(if j mod 2 = 0 then H (val t lv j) (val t lv (sibling j))
                else H (val t lv (sibling j)) (val t lv j)) = val t (Suc lv) (j div 2)"
  proof (cases "j mod 2 = 0")
    case True
    from even_odd_halves(1)[OF True] show ?thesis using inv True by simp
  next
    case False
    from even_odd_halves(2)[OF False] show ?thesis using inv False by simp
  qed
  have ih: "fold_path H (val t (Suc lv) (j div 2))
           (map (\<lambda>k. val t (Suc lv + k) (sibling ((j div 2) div 2 ^ k))) [0..<n])
           (map (\<lambda>k. ((j div 2) div 2 ^ k) mod 2) [0..<n]) = val t (Suc lv + n) ((j div 2) div 2 ^ n)"
    using Suc.prems by (intro Suc.IH) simp
  have "fold_path H (val t lv j)
           (map (\<lambda>k. val t (lv + k) (sibling (j div 2 ^ k))) [0..<Suc n])
           (map (\<lambda>k. (j div 2 ^ k) mod 2) [0..<Suc n]) =
        fold_path H (val t (Suc lv) (j div 2))
           (map (\<lambda>k. val t (Suc lv + k) (sibling ((j div 2) div 2 ^ k))) [0..<n])
           (map (\<lambda>k. ((j div 2) div 2 ^ k) mod 2) [0..<n])"
    apply (simp only: upt_0_Suc list.map fold_path.simps)
    apply (simp add: comp_def first div_mult2_eq del: upt_Suc cong: if_cong)
    done
  then show ?case
    using ih by (simp add: div_mult2_eq del: upt_Suc)
qed

lemma merkle_walk_Cons:
  "merkle_walk H (Suc n) (b # bs) (e # es) cur =
     merkle_walk H n bs es (if b = 1 then H e cur else H cur e)"
  unfolding merkle_walk_def by (simp only: foldl_upt_shift) (simp cong: if_cong)

lemma merkle_walk_fold_path:
  assumes "length es = n" and "length bs = n" and "\<forall>b \<in> set bs. b < 2"
  shows "merkle_walk H n bs es cur = fold_path H cur es bs"
  using assms
proof (induction es arbitrary: n bs cur)
  case Nil
  then show ?case by (simp add: merkle_walk_def)
next
  case (Cons e es)
  then obtain m where n: "n = Suc m" by (cases n) auto
  with Cons.prems obtain b bs' where bs: "bs = b # bs'" by (cases bs) auto
  have b01: "b = 0 \<or> b = 1" using Cons.prems(3) bs by auto
  have "merkle_walk H m bs' es (if b = 1 then H e cur else H cur e) =
        fold_path H (if b = 1 then H e cur else H cur e) es bs'"
    using Cons.prems n bs by (intro Cons.IH) auto
  then show ?case
    using b01 by (auto simp: n bs merkle_walk_Cons)
qed

lemma insert_all_append:
  "insert_all t (xs @ ys) =
     (case insert_all t xs of Inl e \<Rightarrow> Inl e | Inr t' \<Rightarrow> insert_all t' ys)"
  by (induction xs arbitrary: t) (auto split: sum.splits)

lemma initial_consistent':
  "consistent H ((new_MerkleTree D)\<lparr>bb := Some H,
      zeros := zeros (new_MerkleTree D) @ map (\<lambda>k. ((\<lambda>x. H x x) ^^ k) zeroValue) [0..<Suc (levels (new_MerkleTree D))]\<rparr>)"
  using initial_consistent[of H D] by (simp add: new_MerkleTree_def del: upt_Suc)

text \<open>
  Claim C6. Let a tree of depth D be built by initialize from the leaves \<open>ls0\<close> and
  by further calls of insert for the leaves \<open>ls\<close>, at most \<open>2^D\<close> leaves in all.
  Every one of these calls returns normally, and for every index \<open>i\<close> below the number
  of leaves, proof(i) returns the leaf inserted at \<open>i\<close>, D defined path elements and D
  path indices; folding the leaf upward with them (\<open>fold_path\<close>: at each level the hash
  of the current value and the sibling, the current value on the left when the path
  index is 0) yields root(). So does the loop of the withdraw circuit (\<open>merkle_walk\<close>)
  when it is run on the path elements with the path indices as its bits.
\<close>
theorem proof_path_rebuilds_root:
  assumes "length (ls0 @ ls) \<le> 2 ^ D"
  shows "\<exists>t0 t. initialize H (new_MerkleTree D) ls0 = Inr t0 \<and> insert_all t0 ls = Inr t
          \<and> totalLeaves t = length (ls0 @ ls)
          \<and> (\<forall>i < length (ls0 @ ls). \<exists>p es.
                proof_mt t i = Inr p \<and> proof_leaf p = Some ((ls0 @ ls) ! i)
                \<and> pathElements p = map Some es \<and> length es = D
                \<and> length (pathIndices p) = D \<and> proof_root p = root t
                \<and> root t = Some (fold_path H ((ls0 @ ls) ! i) es (pathIndices p))
                \<and> root t = Some (merkle_walk H D (pathIndices p) es ((ls0 @ ls) ! i)))"
proof -
  let ?ti = "(new_MerkleTree D)\<lparr>bb := Some H,
      zeros := zeros (new_MerkleTree D) @ map (\<lambda>k. ((\<lambda>x. H x x) ^^ k) zeroValue) [0..<Suc (levels (new_MerkleTree D))]\<rparr>"
  have ci: "consistent H ?ti" by (rule initial_consistent')
  have li: "levels ?ti = D" "totalLeaves ?ti = 0" by (simp_all add: new_MerkleTree_def)
  have bi: "totalLeaves ?ti + length (ls0 @ ls) \<le> 2 ^ levels ?ti"
    using assms by (simp only: li)
  from insert_all_consistent[OF ci bi] obtain t where
    a: "insert_all ?ti (ls0 @ ls) = Inr t" and c: "consistent H t"
    and tl0: "totalLeaves t = totalLeaves ?ti + length (ls0 @ ls)"
    and lv0: "levels t = levels ?ti"
    and v0: "\<forall>j. val t 0 j =
                (if totalLeaves ?ti \<le> j \<and> j < totalLeaves ?ti + length (ls0 @ ls)
                 then (ls0 @ ls) ! (j - totalLeaves ?ti) else val ?ti 0 j)"
    by blast
  have tl: "totalLeaves t = length (ls0 @ ls)" using tl0 by (simp only: li add_0)
  have lv: "levels t = D" using lv0 by (simp only: li)
  have v: "\<And>j. j < length (ls0 @ ls) \<Longrightarrow> val t 0 j = (ls0 @ ls) ! j"
    using v0 by (simp only: li) simp
  from a obtain t0 where a0: "insert_all ?ti ls0 = Inr t0" and a1: "insert_all t0 ls = Inr t"
    by (auto simp: insert_all_append split: sum.splits)
  have i0: "initialize H (new_MerkleTree D) ls0 = Inr t0"
    using a0 by (simp only: initialize_unfold)
  have r: "ready H t" using c by (simp add: consistent_def)
  then have zl: "levels t < length (zeros t)" by (simp add: ready_def)
  have rt: "root t = Some (val t D 0)"
    using zl lv by (simp add: root_def node_val)
  have "\<exists>p es. proof_mt t i = Inr p \<and> proof_leaf p = Some ((ls0 @ ls) ! i)
                \<and> pathElements p = map Some es \<and> length es = D
                \<and> length (pathIndices p) = D \<and> proof_root p = root t
                \<and> root t = Some (fold_path H ((ls0 @ ls) ! i) es (pathIndices p))
                \<and> root t = Some (merkle_walk H D (pathIndices p) es ((ls0 @ ls) ! i))"
    if i: "i < length (ls0 @ ls)" for i
  proof -
    let ?es = "map (\<lambda>k. val t (0 + k) (sibling (i div 2 ^ k))) [0..<D]"
    let ?bs = "map (\<lambda>k. (i div 2 ^ k) mod 2) [0..<D]"
    have pe: "map (\<lambda>k. node t k (sibling (i div 2 ^ k))) [0..<D] = map Some ?es"
      using zl lv by (simp add: node_val)
    have vi: "val t 0 i = (ls0 @ ls) ! i" using v[OF i] .
    have z0: "0 < length (zeros t)" using zl by (cases "zeros t") simp_all
    have lf: "node t 0 i = Some ((ls0 @ ls) ! i)"
      using node_val[OF z0, of i] by (simp only: vi)
    have iD: "i div 2 ^ D = 0" using i assms by simp
    have "fold_path H (val t 0 i) ?es ?bs = val t (0 + D) (i div 2 ^ D)"
      by (rule fold_path_levels[OF c]) (simp add: lv)
    then have f: "fold_path H ((ls0 @ ls) ! i) ?es ?bs = val t D 0"
      by (simp only: vi iD add_0)
    have m: "merkle_walk H D ?bs ?es ((ls0 @ ls) ! i) = val t D 0"
      using f by (subst merkle_walk_fold_path) simp_all
    show ?thesis
      apply (rule exI[of _ "\<lparr>proof_root = root t,
          pathElements = map (\<lambda>k. node t k (sibling (i div 2 ^ k))) [0..<levels t],
          pathIndices = map (\<lambda>k. (i div 2 ^ k) mod 2) [0..<levels t],
          proof_leaf = node t 0 i\<rparr>"])
      apply (rule exI[of _ ?es])
      apply (simp only: proof_result MerkleProof.simps lv)
      apply (simp only: pe lf f m rt)
      apply simp
      done
  qed
  then show ?thesis
    using i0 a1 tl by blast
qed

theorem proof_path_rebuilds_root_witness:
  "length ([1] @ [2 :: Fr]) \<le> 2 ^ 1
   \<and> (\<exists>t0 t. initialize H0 (new_MerkleTree 1) [1] = Inr t0 \<and> insert_all t0 [2] = Inr t
        \<and> totalLeaves t = 2
        \<and> (\<exists>p es. proof_mt t 1 = Inr p \<and> proof_leaf p = Some 2
              \<and> pathElements p = map Some es \<and> length es = 1
              \<and> root t = Some (fold_path H0 2 es (pathIndices p))))"
proof -
  have l: "length ([1] @ [2 :: Fr]) \<le> 2 ^ 1" by simp
  from proof_path_rebuilds_root[OF l, of H0] obtain t0 t where
    a: "initialize H0 (new_MerkleTree 1) [1] = Inr t0" "insert_all t0 [2] = Inr t"
       "totalLeaves t = length ([1] @ [2 :: Fr])"
    and b: "\<forall>i < length ([1] @ [2 :: Fr]). \<exists>p es.
                proof_mt t i = Inr p \<and> proof_leaf p = Some (([1] @ [2]) ! i)
                \<and> pathElements p = map Some es \<and> length es = 1
                \<and> length (pathIndices p) = 1 \<and> proof_root p = root t
                \<and> root t = Some (fold_path H0 (([1] @ [2]) ! i) es (pathIndices p))"
    by blast
  have "(1::nat) < length ([1] @ [2 :: Fr])" by simp
  with b obtain p es where
    c: "proof_mt t 1 = Inr p" "proof_leaf p = Some (([1] @ [2]) ! 1)"
       "pathElements p = map Some es" "length es = 1"
       "root t = Some (fold_path H0 (([1] @ [2]) ! 1) es (pathIndices p))"
    by blast
  have "proof_mt t 1 = Inr p \<and> proof_leaf p = Some 2
              \<and> pathElements p = map Some es \<and> length es = 1
              \<and> root t = Some (fold_path H0 2 es (pathIndices p))"
    using c by simp
  moreover have "totalLeaves t = 2" using a(3) by simp
  ultimately show ?thesis using l a(1,2) by blast
qed

section \<open>The guards of insert and update\<close>


lemma update_totalLeaves:
  "update t index leaf ins = Inr t' \<Longrightarrow> totalLeaves t' = totalLeaves t \<and> levels t' = levels t"
  by (auto simp: update_def split: if_splits sum.splits prod.splits)

lemma insert_totalLeaves:
  "insert_mt t leaf = Inr t' \<Longrightarrow> totalLeaves t' = totalLeaves t + 1 \<and> levels t' = levels t"
  by (auto simp: insert_mt_def Let_def dest: update_totalLeaves split: sum.splits)

lemma empty_tree1_initialize: "initialize H0 (new_MerkleTree 1) [] = Inr empty_tree1"
  by (simp add: initialize_empty empty_tree1_def)

lemma full_tree1_initialize: "initialize H0 (new_MerkleTree 1) [1, 2] = Inr full_tree1"
  apply (simp add: initialize_unfold new_MerkleTree_def insert_mt_def update_def traverse_def
      update_handleIndex_def pedersenHash_def node_def zeros_at_def indexToKey_def Let_def
      full_tree1_def)
  apply (auto simp: fun_eq_iff)
  done

text \<open>
  Claim C4 states that insert fails on a tree of depth D that holds \<open>2^D\<close> leaves.
  MerkleTree has no check of the capacity. On the tree of depth 1 that initialize builds
  from the two leaves 1 and 2, a third insert returns normally: it takes the index 2,
  totalLeaves becomes 3, the leaf is stored under the key (0, 2), and the root is replaced
  by the hash of the new leaf with the zero of level 0.
\<close>
theorem insert_at_capacity_not_rejected:
  "initialize H0 (new_MerkleTree 1) [1, 2] = Inr full_tree1
   \<and> totalLeaves full_tree1 = 2 ^ levels full_tree1
   \<and> (case insert_mt full_tree1 3 of
         Inl e \<Rightarrow> False
       | Inr t' \<Rightarrow> totalLeaves t' = 3 \<and> storage t' (0, 2) = Some 3
                  \<and> root t' = Some (H0 3 zeroValue))"
  apply (simp only: full_tree1_initialize simp_thms)
  apply (simp add: insert_mt_def update_def traverse_def
      update_handleIndex_def pedersenHash_def node_def zeros_at_def indexToKey_def Let_def
      full_tree1_def root_def)
  done

text \<open>
  Claim C4, as the code has it. On an initialised tree of depth D that holds \<open>2^D\<close>
  leaves, insert does not fail: the index it assigns is totalLeaves, that is \<open>2^D\<close>
  (it does not wrap, and it lies outside the index domain), totalLeaves becomes
  \<open>2^D + 1\<close>, and for \<open>D > 0\<close> the leaf is stored under the key \<open>(0, 2^D)\<close>.
\<close>
theorem insert_at_capacity_succeeds:
  assumes "bb t = Some H" and "levels t < length (zeros t)" and "totalLeaves t = 2 ^ levels t"
  shows "\<exists>t'. insert_mt t leaf = Inr t' \<and> totalLeaves t' = 2 ^ levels t + 1
            \<and> levels t' = levels t
            \<and> (0 < levels t \<longrightarrow> storage t' (0, 2 ^ levels t) = Some leaf)"
proof -
  have r: "ready H t" using assms by (simp add: ready_def)
  have u: "update t (totalLeaves t) leaf True =
     Inr (t\<lparr>storage := (\<lambda>(l, j).
            if l < levels t \<and> j = totalLeaves t div 2 ^ l then Some (path_val H t (totalLeaves t) leaf l)
            else if l = levels t \<and> j = 0 then Some (path_val H t (totalLeaves t) leaf (levels t))
            else storage t (l, j))\<rparr>)"
    by (rule update_result[OF r]) simp_all
  have "insert_mt t leaf = Inr (t\<lparr>storage := (\<lambda>(l, j).
            if l < levels t \<and> j = totalLeaves t div 2 ^ l then Some (path_val H t (totalLeaves t) leaf l)
            else if l = levels t \<and> j = 0 then Some (path_val H t (totalLeaves t) leaf (levels t))
            else storage t (l, j)), totalLeaves := totalLeaves t + 1\<rparr>)"
    by (simp only: insert_mt_def Let_def u sum.case) simp
  then show ?thesis
    using assms(3) by (simp add: path_val_0)
qed

theorem insert_at_capacity_succeeds_witness:
  "bb full_tree1 = Some H0 \<and> levels full_tree1 < length (zeros full_tree1)
   \<and> totalLeaves full_tree1 = 2 ^ levels full_tree1
   \<and> (\<exists>t'. insert_mt full_tree1 3 = Inr t' \<and> totalLeaves t' = 2 ^ levels full_tree1 + 1
            \<and> levels t' = levels full_tree1
            \<and> storage t' (0, 2 ^ levels full_tree1) = Some 3)"
proof -
  have a: "bb full_tree1 = Some H0" "levels full_tree1 < length (zeros full_tree1)"
    "totalLeaves full_tree1 = 2 ^ levels full_tree1" "0 < levels full_tree1"
    by (simp_all add: full_tree1_def)
  from insert_at_capacity_succeeds[OF a(1,2,3), of 3] a show ?thesis by blast
qed

text \<open>
  Claim C5 states that the second of two calls update(index, leaf, true) for one index
  fails. update compares the index with totalLeaves and does not change totalLeaves: on
  the empty tree of depth 1, update(0, 5, true) and then update(0, 6, true) both return
  normally, and the second replaces the leaf stored by the first.
\<close>
theorem update_twice_insert_mode_accepted:
  "initialize H0 (new_MerkleTree 1) [] = Inr empty_tree1
   \<and> (case update empty_tree1 0 5 True of
         Inl e \<Rightarrow> False
       | Inr t1 \<Rightarrow> storage t1 (0, 0) = Some 5
           \<and> (case update t1 0 6 True of
                 Inl e \<Rightarrow> False
               | Inr t2 \<Rightarrow> storage t2 (0, 0) = Some 6 \<and> totalLeaves t2 = 0))"
  apply (simp only: empty_tree1_initialize simp_thms)
  apply (simp add: update_def traverse_def
      update_handleIndex_def pedersenHash_def node_def zeros_at_def indexToKey_def Let_def
      empty_tree1_def)
  done

text \<open>
  Claim C5, as the code has it. update in insert mode rejects every index below
  totalLeaves ("Use update method for existing elements."), update in non-insert mode
  rejects every index at or beyond totalLeaves ("Use insert method for new elements.").
  update leaves totalLeaves as it is; after insert, which advances it, the inserted index
  is rejected in insert mode. On an initialised tree every other call returns normally:
  in insert mode at an index at or beyond totalLeaves, also a second time for the same
  index, and in non-insert mode at an index below totalLeaves.
\<close>
theorem update_guards_by_frontier:
  "(index < totalLeaves t \<longrightarrow> update t index leaf True = Inl UseUpdateMethod)
   \<and> (totalLeaves t \<le> index \<longrightarrow> update t index leaf False = Inl UseInsertMethod)
   \<and> (update t index leaf ins = Inr t' \<longrightarrow> totalLeaves t' = totalLeaves t)
   \<and> (insert_mt t leaf = Inr t'' \<longrightarrow> update t'' (totalLeaves t) leaf' True = Inl UseUpdateMethod)
   \<and> (bb t = Some H \<and> levels t < length (zeros t) \<longrightarrow>
        (totalLeaves t \<le> index \<longrightarrow>
           (\<exists>t1 t2. update t index leaf True = Inr t1 \<and> update t1 index leaf' True = Inr t2))
      \<and> (index < totalLeaves t \<longrightarrow> (\<exists>t1. update t index leaf False = Inr t1)))"
proof (intro conjI impI)
  show "index < totalLeaves t \<Longrightarrow> update t index leaf True = Inl UseUpdateMethod"
    by (simp add: update_def)
  show "totalLeaves t \<le> index \<Longrightarrow> update t index leaf False = Inl UseInsertMethod"
    by (simp add: update_def)
  show "update t index leaf ins = Inr t' \<Longrightarrow> totalLeaves t' = totalLeaves t"
    by (simp add: update_totalLeaves)
  show "insert_mt t leaf = Inr t'' \<Longrightarrow> update t'' (totalLeaves t) leaf' True = Inl UseUpdateMethod"
    by (drule insert_totalLeaves) (simp add: update_def)
next
  assume a: "bb t = Some H \<and> levels t < length (zeros t)"
  then have r: "ready H t" by (simp add: ready_def)
  {
    assume f: "totalLeaves t \<le> index"
    obtain t1 where u1: "update t index leaf True = Inr t1"
      using update_result[OF r, of True index leaf] f by auto
    have r1: "ready H t1" using update_frame[OF r u1] r by (simp add: ready_def)
    have f1: "totalLeaves t1 \<le> index" using update_frame[OF r u1] f by simp
    obtain t2 where u2: "update t1 index leaf' True = Inr t2"
      using update_result[OF r1, of True index leaf'] f1 by auto
    show "\<exists>t1 t2. update t index leaf True = Inr t1 \<and> update t1 index leaf' True = Inr t2"
      using u1 u2 by blast
  }
  {
    assume f: "index < totalLeaves t"
    show "\<exists>t1. update t index leaf False = Inr t1"
      using update_result[OF r, of False index leaf] f by auto
  }
qed

theorem update_guards_by_frontier_witness:
  "update full_tree1 1 7 True = Inl UseUpdateMethod
   \<and> update full_tree1 2 7 False = Inl UseInsertMethod
   \<and> (\<exists>t1 t2. update empty_tree1 0 5 True = Inr t1 \<and> update t1 0 6 True = Inr t2
         \<and> totalLeaves t1 = totalLeaves empty_tree1)
   \<and> (\<exists>t''. insert_mt empty_tree1 5 = Inr t''
         \<and> update t'' (totalLeaves empty_tree1) 6 True = Inl UseUpdateMethod)
   \<and> (\<exists>t1. update full_tree1 1 7 False = Inr t1)"
proof -
  have e: "bb empty_tree1 = Some H0 \<and> levels empty_tree1 < length (zeros empty_tree1)"
    "totalLeaves empty_tree1 \<le> 0"
    by (simp_all add: empty_tree1_def)
  have f: "bb full_tree1 = Some H0 \<and> levels full_tree1 < length (zeros full_tree1)"
    "1 < totalLeaves full_tree1" "totalLeaves full_tree1 \<le> 2"
    by (simp_all add: full_tree1_def)
  obtain t'' where i: "insert_mt empty_tree1 5 = Inr t''"
    using insert_ready[of H0 empty_tree1 5] e(1) by (auto simp: ready_def)
  note w1 = update_guards_by_frontier[of 1 full_tree1 7 True full_tree1 full_tree1 6 H0]
  note w2 = update_guards_by_frontier[of 2 full_tree1 7 True full_tree1 full_tree1 6 H0]
  note w3 = update_guards_by_frontier[of 0 empty_tree1 5 True empty_tree1 t'' 6 H0]
  have a: "update full_tree1 1 7 True = Inl UseUpdateMethod" using w1 f by blast
  have b: "update full_tree1 2 7 False = Inl UseInsertMethod" using w2 f by blast
  have c: "\<exists>t1 t2. update empty_tree1 0 5 True = Inr t1 \<and> update t1 0 6 True = Inr t2
         \<and> totalLeaves t1 = totalLeaves empty_tree1"
  proof -
    from w3 e obtain t1 t2 where u: "update empty_tree1 0 5 True = Inr t1" "update t1 0 6 True = Inr t2"
      by blast
    from update_guards_by_frontier[of 0 empty_tree1 5 True t1 t'' 6 H0] u(1)
    have "totalLeaves t1 = totalLeaves empty_tree1" by blast
    then show ?thesis using u by blast
  qed
  have d: "update t'' (totalLeaves empty_tree1) 6 True = Inl UseUpdateMethod"
    using w3 i by blast
  have g: "\<exists>t1. update full_tree1 1 7 False = Inr t1" using w1 f by blast
  show ?thesis using a b c d g i by blast
qed

section \<open>The generator\<close>


lemma update_same_fields:
  "update t index leaf ins = Inr t' \<Longrightarrow>
     levels t' = levels t \<and> zeros t' = zeros t \<and> bb t' = bb t \<and> totalLeaves t' = totalLeaves t"
  by (auto simp: update_def split: if_splits sum.splits prod.splits)

lemma insert_same_fields:
  "insert_mt t leaf = Inr t' \<Longrightarrow>
     levels t' = levels t \<and> zeros t' = zeros t \<and> bb t' = bb t
     \<and> totalLeaves t' = totalLeaves t + 1"
  by (auto simp: insert_mt_def Let_def dest: update_same_fields split: sum.splits)

lemma init_result:
  "init H g =
     (g\<lparr>tree := (tree g)\<lparr>bb := Some H,
           zeros := zeros (tree g) @
             map (\<lambda>k. ((\<lambda>x. H x x) ^^ k) zeroValue) [0..<Suc (levels (tree g))]\<rparr>\<rparr>, Inr ())"
  by (simp add: init_def initialize_unfold del: upt_Suc)

lemma gen_inv_new: "gen_inv new_NoirCircuitTomlGenerator"
  by (simp add: gen_inv_def new_NoirCircuitTomlGenerator_def new_MerkleTree_def)

lemma gen_inv_init: "gen_inv g \<Longrightarrow> gen_inv (fst (init H g))"
  by (simp add: init_result gen_inv_def del: upt_Suc)

lemma gen_inv_deposit: "gen_inv g \<Longrightarrow> gen_inv (fst (generator_deposit g id' r))"
  by (auto simp: generator_deposit_def Let_def gen_inv_def dest!: insert_same_fields
      split: sum.splits)

lemma gentoml_deposit_fst:
  "fst (gentoml g (DepositArgs id' r)) = fst (generator_deposit g id' r)"
  by (simp add: generator_deposit_def Let_def split: sum.splits)

lemma gen_inv_gentoml: "gen_inv g \<Longrightarrow> gen_inv (fst (gentoml g args))"
proof (cases args)
  case (DepositArgs id' r)
  assume "gen_inv g"
  then show ?thesis
    using gen_inv_deposit[of g id' r] by (simp only: DepositArgs gentoml_deposit_fst)
next
  case (WithdrawArgs n)
  assume "gen_inv g"
  then show ?thesis by (simp add: WithdrawArgs Let_def split: option.splits)
next
  case OtherArgs
  assume "gen_inv g"
  then show ?thesis by (simp add: OtherArgs)
qed

lemma gen_inv_step: "gen_inv g \<Longrightarrow> gen_inv (gen_step g c)"
  by (cases c) (simp_all add: gen_inv_init gen_inv_deposit gen_inv_gentoml)

lemma gen_inv_run: "gen_inv g \<Longrightarrow> gen_inv (gen_run g cs)"
  unfolding gen_run_def by (induction cs arbitrary: g) (simp_all add: gen_inv_step)

lemma toStrings_Some: "toStrings (map Some xs) = Inr xs"
  by (induction xs) (simp_all add: toString_def)

lemma generator_deposit_ready:
  assumes r: "ready H (tree g)" and l: "0 < levels (tree g)"
  shows "\<exists>g' toml record'.
           generator_deposit g id' r = (g', Inr ())
         \<and> gentoml g (DepositArgs id' r) = (g', Inr toml)
         \<and> totalLeaves (tree g') = totalLeaves (tree g) + 1
         \<and> storage (tree g') (0, totalLeaves (tree g)) = Some (H id' r)
         \<and> (\<forall>j. j \<noteq> totalLeaves (tree g) \<longrightarrow>
               storage (tree g') (0, j) = storage (tree g) (0, j))
         \<and> deposits g' = deposits g @ [record']
         \<and> rec_commitment record' = H id' r
         \<and> rec_index record' = totalLeaves (tree g)"
proof -
  let ?t = "tree g"
  let ?n = "totalLeaves ?t"
  let ?c = "H id' r"
  let ?es = "map (\<lambda>k. val ?t k (sibling (?n div 2 ^ k))) [0..<levels ?t]"
  have zl: "levels ?t < length (zeros ?t)" and bbt: "bb ?t = Some H"
    using r by (simp_all add: ready_def)
  have h: "pedersenHash ?t (Some id') (Some r) = Inr ?c"
    using bbt by (simp add: pedersenHash_def)
  have pe: "map (\<lambda>k. node ?t k (sibling (?n div 2 ^ k))) [0..<levels ?t] = map Some ?es"
    using zl by (simp add: node_val)
  have rt: "root ?t = Some (val ?t (levels ?t) 0)"
    using zl by (simp add: root_def node_val)
  define S where "S = (\<lambda>(l, j).
            if l < levels ?t \<and> j = ?n div 2 ^ l then Some (path_val H ?t ?n ?c l)
            else if l = levels ?t \<and> j = 0 then Some (path_val H ?t ?n ?c (levels ?t))
            else storage ?t (l, j))"
  have u: "update ?t ?n ?c True = Inr (?t\<lparr>storage := S\<rparr>)"
    unfolding S_def by (rule update_result[OF r]) simp_all
  have i: "insert_mt ?t ?c = Inr (?t\<lparr>storage := S, totalLeaves := ?n + 1\<rparr>)"
    by (simp only: insert_mt_def Let_def u sum.case) simp
  have rt': "root (?t\<lparr>storage := S, totalLeaves := ?n + 1\<rparr>) = Some (path_val H ?t ?n ?c (levels ?t))"
    using l by (simp add: root_def node_def indexToKey_def S_def)
  have s0: "S (0, ?n) = Some ?c" using l by (simp add: S_def path_val_0)
  have s1: "\<And>j. j \<noteq> ?n \<Longrightarrow> S (0, j) = storage ?t (0, j)" using l by (simp add: S_def)
  let ?rec = "\<lparr>rec_id = id', rec_r = r, rec_commitment = ?c, rec_index = numToFr ?n,
               rec_oldRoot = root ?t, rec_newRoot = root (?t\<lparr>storage := S, totalLeaves := ?n + 1\<rparr>),
               rec_hashPath = map Some ?es,
               rec_pathIndices = map (\<lambda>k. (?n div 2 ^ k) mod 2) [0..<levels ?t]\<rparr>"
  let ?g' = "g\<lparr>tree := ?t\<lparr>storage := S, totalLeaves := ?n + 1\<rparr>, deposits := deposits g @ [?rec]\<rparr>"
  have d: "generator_deposit g id' r = (?g', Inr ())"
    by (simp only: generator_deposit_def Let_def proof_result sum.case h i MerkleProof.simps pe)
  have tm: "deposit_toml id' r (map Some ?es) (root ?t)
              (root (?t\<lparr>storage := S, totalLeaves := ?n + 1\<rparr>)) ?c (numToFr ?n) =
            Inr [(''id'', Str id'), (''r'', Str r), (''oldPath'', Arr ?es),
                 (''oldRoot'', Str (val ?t (levels ?t) 0)),
                 (''newRoot'', Str (path_val H ?t ?n ?c (levels ?t))),
                 (''commitment'', Str ?c), (''index'', Str (numToFr ?n))]"
    by (simp only: deposit_toml_def toStrings_Some rt rt' toString_def option.case sum.case)
  have gt: "gentoml g (DepositArgs id' r) = (?g', Inr [(''id'', Str id'), (''r'', Str r), (''oldPath'', Arr ?es),
                 (''oldRoot'', Str (val ?t (levels ?t) 0)),
                 (''newRoot'', Str (path_val H ?t ?n ?c (levels ?t))),
                 (''commitment'', Str ?c), (''index'', Str (numToFr ?n))])"
    by (simp only: gentoml.simps Let_def proof_result sum.case h i MerkleProof.simps pe tm)
  show ?thesis
    apply (rule exI[of _ ?g'])
    apply (rule exI)
    apply (rule exI[of _ ?rec])
    apply (simp only: d gt)
    apply (simp add: s0 s1 numToFr_def)
    done
qed

text \<open>
  Claim C9. After every sequence of calls of init, deposit and gentoml on a new
  generator, the number of deposit records equals totalLeaves of the tree. deposit(id, r)
  and gentoml('deposit', id, r) change the generator in the same way. A call that returns
  normally has advanced totalLeaves by one and appended one record; a call that throws
  has changed nothing. Once init has run, with the hasher \<open>H\<close>, every such call returns
  normally: the commitment \<open>H id r\<close> is stored as the leaf at the old totalLeaves, no
  other leaf changes, one record with this commitment and index is appended, and the
  generator after the call differs from the one before, also for gentoml.
\<close>
theorem generator_deposit_mutates:
  "length (deposits (gen_run new_NoirCircuitTomlGenerator cs)) =
     totalLeaves (tree (gen_run new_NoirCircuitTomlGenerator cs))
   \<and> fst (gentoml g (DepositArgs id' r)) = fst (generator_deposit g id' r)
   \<and> (generator_deposit g id' r = (g1, Inr ()) \<longrightarrow>
        totalLeaves (tree g1) = totalLeaves (tree g) + 1
        \<and> length (deposits g1) = length (deposits g) + 1)
   \<and> (generator_deposit g id' r = (g1, Inl e) \<longrightarrow> g1 = g)
   \<and> (g = gen_run new_NoirCircuitTomlGenerator cs \<and> bb (tree g) = Some H \<longrightarrow>
        (\<exists>g' toml record'.
           generator_deposit g id' r = (g', Inr ())
         \<and> gentoml g (DepositArgs id' r) = (g', Inr toml)
         \<and> g' \<noteq> g
         \<and> totalLeaves (tree g') = totalLeaves (tree g) + 1
         \<and> storage (tree g') (0, totalLeaves (tree g)) = Some (H id' r)
         \<and> (\<forall>j. j \<noteq> totalLeaves (tree g) \<longrightarrow>
               storage (tree g') (0, j) = storage (tree g) (0, j))
         \<and> deposits g' = deposits g @ [record']
         \<and> rec_commitment record' = H id' r
         \<and> rec_index record' = totalLeaves (tree g)))"
proof (intro conjI impI)
  have inv: "gen_inv (gen_run new_NoirCircuitTomlGenerator cs)"
    by (rule gen_inv_run[OF gen_inv_new])
  then show "length (deposits (gen_run new_NoirCircuitTomlGenerator cs)) =
     totalLeaves (tree (gen_run new_NoirCircuitTomlGenerator cs))"
    by (simp add: gen_inv_def)
  show "fst (gentoml g (DepositArgs id' r)) = fst (generator_deposit g id' r)"
    by (rule gentoml_deposit_fst)
  {
    assume "generator_deposit g id' r = (g1, Inr ())"
    then show "totalLeaves (tree g1) = totalLeaves (tree g) + 1"
      and "length (deposits g1) = length (deposits g) + 1"
      by (auto simp: generator_deposit_def Let_def dest!: insert_same_fields split: sum.splits)
  }
  {
    assume "generator_deposit g id' r = (g1, Inl e)"
    then show "g1 = g"
      by (auto simp: generator_deposit_def Let_def split: sum.splits)
  }
  {
    assume a: "g = gen_run new_NoirCircuitTomlGenerator cs \<and> bb (tree g) = Some H"
    then have gi: "gen_inv g" using inv by simp
    then have r: "ready H (tree g)" and l: "0 < levels (tree g)"
      using a by (auto simp: gen_inv_def ready_def)
    from generator_deposit_ready[OF r l, of id' r] obtain g' toml record' where
      w: "generator_deposit g id' r = (g', Inr ())"
         "gentoml g (DepositArgs id' r) = (g', Inr toml)"
         "totalLeaves (tree g') = totalLeaves (tree g) + 1"
         "storage (tree g') (0, totalLeaves (tree g)) = Some (H id' r)"
         "\<forall>j. j \<noteq> totalLeaves (tree g) \<longrightarrow> storage (tree g') (0, j) = storage (tree g) (0, j)"
         "deposits g' = deposits g @ [record']"
         "rec_commitment record' = H id' r"
         "rec_index record' = totalLeaves (tree g)"
      by blast
    have ne: "g' \<noteq> g" using w(3) by auto
    show "\<exists>g' toml record'.
           generator_deposit g id' r = (g', Inr ())
         \<and> gentoml g (DepositArgs id' r) = (g', Inr toml)
         \<and> g' \<noteq> g
         \<and> totalLeaves (tree g') = totalLeaves (tree g) + 1
         \<and> storage (tree g') (0, totalLeaves (tree g)) = Some (H id' r)
         \<and> (\<forall>j. j \<noteq> totalLeaves (tree g) \<longrightarrow>
               storage (tree g') (0, j) = storage (tree g) (0, j))
         \<and> deposits g' = deposits g @ [record']
         \<and> rec_commitment record' = H id' r
         \<and> rec_index record' = totalLeaves (tree g)"
      using w ne by blast
  }
qed

lemma generator0_bb: "bb (tree (gen_run new_NoirCircuitTomlGenerator [CallInit H0])) = Some H0"
  by (simp add: gen_run_def init_result)

lemma generator_uninitialised_deposit:
  "generator_deposit new_NoirCircuitTomlGenerator 1 2 = (new_NoirCircuitTomlGenerator, Inl TypeError)"
  by (simp add: generator_deposit_def Let_def proof_result pedersenHash_def
      new_NoirCircuitTomlGenerator_def new_MerkleTree_def)

theorem generator_deposit_mutates_witness:
  "bb (tree (gen_run new_NoirCircuitTomlGenerator [CallInit H0])) = Some H0
   \<and> generator_deposit new_NoirCircuitTomlGenerator 1 2 = (new_NoirCircuitTomlGenerator, Inl TypeError)
   \<and> (\<exists>g' toml record'.
         generator_deposit (gen_run new_NoirCircuitTomlGenerator [CallInit H0]) 1 2 = (g', Inr ())
       \<and> gentoml (gen_run new_NoirCircuitTomlGenerator [CallInit H0]) (DepositArgs 1 2) = (g', Inr toml)
       \<and> g' \<noteq> gen_run new_NoirCircuitTomlGenerator [CallInit H0]
       \<and> totalLeaves (tree g') = 1
       \<and> length (deposits g') = 1
       \<and> storage (tree g') (0, 0) = Some (H0 1 2)
       \<and> deposits g' = [record']
       \<and> rec_commitment record' = H0 1 2
       \<and> rec_index record' = 0)"
proof -
  let ?g = "gen_run new_NoirCircuitTomlGenerator [CallInit H0]"
  note t = generator_deposit_mutates[of "[CallInit H0]" ?g 1 2 _ _ H0]
  have tl: "totalLeaves (tree ?g) = 0" and dp: "deposits ?g = []"
    by (simp_all add: gen_run_def init_result new_NoirCircuitTomlGenerator_def new_MerkleTree_def)
  from generator_deposit_mutates[of "[CallInit H0]" ?g 1 2 ?g TypeError H0] generator0_bb
  obtain g' toml record' where
      w: "generator_deposit ?g 1 2 = (g', Inr ())"
         "gentoml ?g (DepositArgs 1 2) = (g', Inr toml)"
         "g' \<noteq> ?g"
         "totalLeaves (tree g') = totalLeaves (tree ?g) + 1"
         "storage (tree g') (0, totalLeaves (tree ?g)) = Some (H0 1 2)"
         "deposits g' = deposits ?g @ [record']"
         "rec_commitment record' = H0 1 2"
         "rec_index record' = totalLeaves (tree ?g)"
    by blast
  from generator_deposit_mutates[of "[CallInit H0]" ?g 1 2 g' TypeError H0] w(1)
  have ln: "length (deposits g') = length (deposits ?g) + 1" by blast
  have "generator_deposit ?g 1 2 = (g', Inr ())
       \<and> gentoml ?g (DepositArgs 1 2) = (g', Inr toml)
       \<and> g' \<noteq> ?g
       \<and> totalLeaves (tree g') = 1
       \<and> length (deposits g') = 1
       \<and> storage (tree g') (0, 0) = Some (H0 1 2)
       \<and> deposits g' = [record']
       \<and> rec_commitment record' = H0 1 2
       \<and> rec_index record' = 0"
    using w ln by (simp add: tl dp)
  then show ?thesis
    using generator0_bb generator_uninitialised_deposit by blast
qed

section \<open>The concrete scenario of the specification\<close>

text \<open>
  A tree of depth 3 with the leaves 1, 2, 3, and then the leaf 4: the root and proof(3)
  are the values the specification lists, for every hash function.
\<close>


lemma traverse3:
  "traverse_loop 3 i c h s =
     (case h i c (if c mod 2 = 0 then c + 1 else c - 1) s of
        Inl e \<Rightarrow> Inl e
      | Inr s1 \<Rightarrow>
         (case h (i + 1) (c div 2) (if c div 2 mod 2 = 0 then c div 2 + 1 else c div 2 - 1) s1 of
            Inl e \<Rightarrow> Inl e
          | Inr s2 \<Rightarrow>
             (case h (i + 2) (c div 2 div 2)
                     (if c div 2 div 2 mod 2 = 0 then c div 2 div 2 + 1 else c div 2 div 2 - 1) s2 of
                Inl e \<Rightarrow> Inl e
              | Inr s3 \<Rightarrow> Inr s3)))"
  unfolding numeral_3_eq_3 traverse_loop.simps Let_def
  by (simp cong: sum.case_cong)

lemma scenario_depth3:
  "(case initialize H (new_MerkleTree 3) [1, 2, 3] of
      Inl e \<Rightarrow> False
    | Inr t0 \<Rightarrow>
        totalLeaves t0 = 3 \<and>
        (case insert_mt t0 4 of
           Inl e \<Rightarrow> False
         | Inr t \<Rightarrow>
             totalLeaves t = 4
             \<and> root t = Some (H (H (H 1 2) (H 3 4))
                               (H (H zeroValue zeroValue) (H zeroValue zeroValue)))
             \<and> proof_mt t 3 =
                 Inr \<lparr>proof_root = Some (H (H (H 1 2) (H 3 4))
                               (H (H zeroValue zeroValue) (H zeroValue zeroValue))),
                      pathElements = [Some 3, Some (H 1 2),
                                      Some (H (H zeroValue zeroValue) (H zeroValue zeroValue))],
                      pathIndices = [1, 1, 0], proof_leaf = Some 4\<rparr>))"
  apply (simp only: initialize_def Let_def)
  apply (simp add: new_MerkleTree_def pedersenHash_def numeral_3_eq_3[of] del: upt_Suc)
  apply (simp add: insert_mt_def update_def traverse_def traverse3 proof_mt_def
      update_handleIndex_def proof_handleIndex_def pedersenHash_def node_def zeros_at_def
      indexToKey_def Let_def root_def cong: sum.case_cong)
  apply (simp add: numeral_3_eq_3)
  done

end
